theory Spec2Isabelle
  imports Complex_Main "HOL-Library.Monad_Syntax" "HOL-Library.AList" "HOL-Library.Multiset"
begin


section \<open>Data model (types.ts, constants.ts)\<close>

text \<open>
  \<^verbatim>\<open>type Disk = 'Black' | 'White' | null\<close>: a disk is an optional colour, \<open>None\<close> is
  \<^verbatim>\<open>null\<close>. \<^verbatim>\<open>type Board = Disk[][]\<close> is a list of rows. Coordinates are JavaScript
  numbers; the model takes the integer ones.
\<close>

datatype color = Black | White

type_synonym disk = "color option"

type_synonym board = "disk list list"

record coordinate =
  row :: int
  col :: int

definition BOARD_SIZE :: int where
  "BOARD_SIZE = 8"

text \<open>
  Reading \<^verbatim>\<open>a[r][c]\<close>. When \<^verbatim>\<open>a[r]\<close> does not exist the read throws a TypeError,
  which is the result \<open>None\<close> of every function below. When the row exists and the column
  does not, JavaScript yields \<^verbatim>\<open>undefined\<close>, which is neither \<^verbatim>\<open>null\<close> nor a colour.
\<close>

datatype 'a slot = Undefined | Elem 'a

definition rd :: "'a list list \<Rightarrow> int \<Rightarrow> int \<Rightarrow> 'a slot option" where
  "rd b r c =
     (if 0 \<le> r \<and> r < int (length b)
      then Some (if 0 \<le> c \<and> c < int (length (b ! nat r))
                 then Elem (b ! nat r ! nat c) else Undefined)
      else None)"

text \<open>
  Writing \<^verbatim>\<open>a[r][c] = v\<close>. A missing row throws a TypeError. A column outside the row
  would make JavaScript grow the row array (or attach a property to it), which leaves the
  grid of the data model; the model stops there with \<open>None\<close> as well.
\<close>

definition wr :: "'a list list \<Rightarrow> int \<Rightarrow> int \<Rightarrow> 'a \<Rightarrow> 'a list list option" where
  "wr b r c v =
     (if 0 \<le> r \<and> r < int (length b) \<and> 0 \<le> c \<and> c < int (length (b ! nat r))
      then Some (b[nat r := (b ! nat r)[nat c := v]])
      else None)"

section \<open>Rules engine (services/gameLogic.ts)\<close>

text \<open>
  The table \<^verbatim>\<open>DIRECTIONS\<close> holds the eight unit steps, in the order of the source:
  four cardinal, then four diagonal.
\<close>

datatype dir = Up | Down | Left | Right | UpLeft | UpRight | DownLeft | DownRight

fun dRow :: "dir \<Rightarrow> int" where
  "dRow Up = -1" | "dRow Down = 1" | "dRow Left = 0" | "dRow Right = 0"
| "dRow UpLeft = -1" | "dRow UpRight = -1" | "dRow DownLeft = 1" | "dRow DownRight = 1"

fun dCol :: "dir \<Rightarrow> int" where
  "dCol Up = 0" | "dCol Down = 0" | "dCol Left = -1" | "dCol Right = 1"
| "dCol UpLeft = -1" | "dCol UpRight = 1" | "dCol DownLeft = -1" | "dCol DownRight = 1"

definition DIRECTIONS :: "dir list" where
  "DIRECTIONS = [Up, Down, Left, Right, UpLeft, UpRight, DownLeft, DownRight]"

definition inGrid :: "int \<Rightarrow> int \<Rightarrow> bool" where
  "inGrid r c \<longleftrightarrow> r \<ge> 0 \<and> r < BOARD_SIZE \<and> c \<ge> 0 \<and> c < BOARD_SIZE"

text \<open>Number of steps the walk from \<open>(r, c)\<close> in direction \<open>d\<close> can still make inside the grid
  (an upper bound); the measure of the two \<^verbatim>\<open>while\<close> loops.\<close>

definition stepsLeft :: "dir \<Rightarrow> int \<Rightarrow> int \<Rightarrow> nat" where
  "stepsLeft d r c =
     nat (if dRow d = 1 then BOARD_SIZE - r else if dRow d = -1 then r + 1
          else if dCol d = 1 then BOARD_SIZE - c else c + 1)"

text \<open>
  The \<^verbatim>\<open>while\<close> loop of \<^verbatim>\<open>isValidMove\<close> for one direction. \<open>Some True\<close> is the
  \<^verbatim>\<open>return true\<close> of the source, \<open>Some False\<close> is leaving the loop (by \<^verbatim>\<open>break\<close> or by the
  loop condition) to try the next direction.
\<close>

function scanValid :: "board \<Rightarrow> disk \<Rightarrow> dir \<Rightarrow> int \<Rightarrow> int \<Rightarrow> bool \<Rightarrow> bool option" where
  "scanValid b color d r c hasOpponent =
     (if inGrid r c then
        do { cell \<leftarrow> rd b r c;
             if cell = Elem None then Some False
             else if cell \<noteq> Elem color
               then scanValid b color d (r + dRow d) (c + dCol d) True
             else Some hasOpponent }
      else Some False)"
  by pat_completeness auto
termination
proof (relation "measure (\<lambda>(b, color, d, r, c, h). stepsLeft d r c)")
  show "wf (measure (\<lambda>(b, color, d, r, c, h). stepsLeft d r c))"
    by simp
next
  fix b :: board and color :: disk and d r c and hasOpponent :: bool and x2 :: "disk slot"
  assume "inGrid r c"
  then show "((b, color, d, r + dRow d, c + dCol d, True), b, color, d, r, c, hasOpponent)
        \<in> measure (\<lambda>(b, color, d, r, c, h). stepsLeft d r c)"
    by (cases d) (simp_all add: stepsLeft_def inGrid_def BOARD_SIZE_def)
qed

declare scanValid.simps [simp del]

fun validDirs :: "board \<Rightarrow> disk \<Rightarrow> int \<Rightarrow> int \<Rightarrow> dir list \<Rightarrow> bool option" where
  "validDirs b color r0 c0 [] = Some False"
| "validDirs b color r0 c0 (d # ds) =
     do { found \<leftarrow> scanValid b color d (r0 + dRow d) (c0 + dCol d) False;
          if found then Some True else validDirs b color r0 c0 ds }"

definition isValidMove :: "board \<Rightarrow> disk \<Rightarrow> int \<Rightarrow> int \<Rightarrow> bool option" where
  "isValidMove b color r0 c0 =
     do { cell \<leftarrow> rd b r0 c0;
          if cell \<noteq> Elem None then Some False
          else validDirs b color r0 c0 DIRECTIONS }"

text \<open>The cells of the grid in the order of the two nested \<^verbatim>\<open>for\<close> loops (row-major).\<close>

definition allCells :: "coordinate list" where
  "allCells = concat (map (\<lambda>r. map (\<lambda>c. \<lparr>row = r, col = c\<rparr>) [0..BOARD_SIZE - 1]) [0..BOARD_SIZE - 1])"

fun collectValid :: "board \<Rightarrow> disk \<Rightarrow> coordinate list \<Rightarrow> coordinate list \<Rightarrow> coordinate list option" where
  "collectValid b color [] moves = Some moves"
| "collectValid b color (p # ps) moves =
     do { v \<leftarrow> isValidMove b color (row p) (col p);
          collectValid b color ps (if v then moves @ [p] else moves) }"

definition getValidMoves :: "board \<Rightarrow> disk \<Rightarrow> coordinate list option" where
  "getValidMoves b color = collectValid b color allCells []"


text \<open>
  \<^verbatim>\<open>applyMove\<close> works on \<^verbatim>\<open>newBoard = board.map(r => [...r])\<close>, a copy of the grid,
  which the model threads through the loops as a value (the copy itself, and what it
  means for the caller's board, is the subject of the heap model further down).
  \<open>flipAll\<close> is the \<^verbatim>\<open>forEach\<close> over \<^verbatim>\<open>disksToFlip\<close>, \<open>scanFlip\<close> the \<^verbatim>\<open>while\<close> loop
  for one direction.
\<close>

fun flipAll :: "board \<Rightarrow> disk \<Rightarrow> coordinate list \<Rightarrow> board option" where
  "flipAll nb color [] = Some nb"
| "flipAll nb color (pos # rest) =
     do { nb' \<leftarrow> wr nb (row pos) (col pos) color; flipAll nb' color rest }"

function scanFlip :: "board \<Rightarrow> disk \<Rightarrow> dir \<Rightarrow> int \<Rightarrow> int \<Rightarrow> coordinate list \<Rightarrow> board option" where
  "scanFlip nb color d r c disksToFlip =
     (if inGrid r c then
        do { cell \<leftarrow> rd nb r c;
             if cell = Elem None then Some nb
             else if cell \<noteq> Elem color
               then scanFlip nb color d (r + dRow d) (c + dCol d)
                      (disksToFlip @ [\<lparr>row = r, col = c\<rparr>])
             else if length disksToFlip > 0 then flipAll nb color disksToFlip
             else Some nb }
      else Some nb)"
  by pat_completeness auto
termination
proof (relation "measure (\<lambda>(nb, color, d, r, c, fs). stepsLeft d r c)")
  show "wf (measure (\<lambda>(nb, color, d, r, c, fs). stepsLeft d r c))"
    by simp
next
  fix nb :: board and color :: disk and d r c and disksToFlip :: "coordinate list"
    and x2 :: "disk slot"
  assume "inGrid r c"
  then show "((nb, color, d, r + dRow d, c + dCol d, disksToFlip @ [\<lparr>row = r, col = c\<rparr>]),
              nb, color, d, r, c, disksToFlip)
        \<in> measure (\<lambda>(nb, color, d, r, c, fs). stepsLeft d r c)"
    by (cases d) (simp_all add: stepsLeft_def inGrid_def BOARD_SIZE_def)
qed

declare scanFlip.simps [simp del]

fun flipDirs :: "board \<Rightarrow> disk \<Rightarrow> int \<Rightarrow> int \<Rightarrow> dir list \<Rightarrow> board option" where
  "flipDirs nb color r0 c0 [] = Some nb"
| "flipDirs nb color r0 c0 (d # ds) =
     do { nb' \<leftarrow> scanFlip nb color d (r0 + dRow d) (c0 + dCol d) [];
          flipDirs nb' color r0 c0 ds }"

definition applyMove :: "board \<Rightarrow> disk \<Rightarrow> int \<Rightarrow> int \<Rightarrow> board option" where
  "applyMove b color r0 c0 =
     do { nb \<leftarrow> wr b r0 c0 color;
          flipDirs nb color r0 c0 DIRECTIONS }"

text \<open>\<^verbatim>\<open>countScore\<close> returns the pair \<^verbatim>\<open>{ Black, White }\<close> of disk counts.\<close>

definition countScore :: "board \<Rightarrow> int \<times> int" where
  "countScore b =
     (int (length (filter (\<lambda>cell. cell = Some Black) (concat b))),
      int (length (filter (\<lambda>cell. cell = Some White) (concat b))))"

definition checkGameOver :: "board \<Rightarrow> bool option" where
  "checkGameOver b =
     do { blackMoves \<leftarrow> getValidMoves b (Some Black);
          whiteMoves \<leftarrow> getValidMoves b (Some White);
          Some (length blackMoves = 0 \<and> length whiteMoves = 0) }"

definition createInitialBoard :: board where
  "createInitialBoard =
     (let e = replicate 8 None
      in [e, e, e,
          [None, None, None, Some White, Some Black, None, None, None],
          [None, None, None, Some Black, Some White, None, None, None],
          e, e, e])"

section \<open>Position evaluator and search (services/learningService.ts)\<close>

text \<open>
  The numbers of the search: \<^verbatim>\<open>alpha\<close>, \<^verbatim>\<open>beta\<close>, \<^verbatim>\<open>maxEval\<close>, \<^verbatim>\<open>minEval\<close> and
  \<^verbatim>\<open>maxScore\<close> start at \<^verbatim>\<open>-Infinity\<close> or \<^verbatim>\<open>Infinity\<close>. Finite numbers are modelled as
  reals: the weights of the repository are integers moved in steps of 0.5 and 0.25 inside
  [-600, 600], and the scores are sums of at most a few hundred such numbers, which IEEE
  doubles represent exactly. The order below is the order of \<^verbatim>\<open><=\<close>, \<^verbatim>\<open>>\<close>,
  \<^verbatim>\<open>Math.max\<close> and \<^verbatim>\<open>Math.min\<close> on these numbers.
\<close>

datatype num = NegInf | Fin real | PosInf

instantiation num :: linorder
begin

fun less_eq_num :: "num \<Rightarrow> num \<Rightarrow> bool" where
  "less_eq_num NegInf y = True"
| "less_eq_num (Fin x) NegInf = False"
| "less_eq_num (Fin x) (Fin y) = (x \<le> y)"
| "less_eq_num (Fin x) PosInf = True"
| "less_eq_num PosInf PosInf = True"
| "less_eq_num PosInf y = False"

definition less_num :: "num \<Rightarrow> num \<Rightarrow> bool" where
  "less_num x y \<longleftrightarrow> x \<le> y \<and> \<not> y \<le> (x :: num)"

instance
proof
  fix x y z :: num
  show "x < y \<longleftrightarrow> x \<le> y \<and> \<not> y \<le> x" by (simp add: less_num_def)
  show "x \<le> x" by (cases x) simp_all
  show "x \<le> y \<Longrightarrow> y \<le> z \<Longrightarrow> x \<le> z" by (cases x; cases y; cases z) simp_all
  show "x \<le> y \<Longrightarrow> y \<le> x \<Longrightarrow> x = y" by (cases x; cases y) simp_all
  show "x \<le> y \<or> y \<le> x" by (cases x; cases y) auto
qed

end

text \<open>
  Reading a weight \<^verbatim>\<open>learnedWeights[r][c]\<close>. A missing row throws; a missing column yields
  \<^verbatim>\<open>undefined\<close>, which turns every sum into \<^verbatim>\<open>NaN\<close>: outside the numbers of the model,
  and \<open>None\<close> as well.
\<close>

definition rdNum :: "real list list \<Rightarrow> int \<Rightarrow> int \<Rightarrow> real option" where
  "rdNum w r c =
     do { x \<leftarrow> rd w r c;
          case x of Elem v \<Rightarrow> Some v | Undefined \<Rightarrow> None }"

text \<open>\<^verbatim>\<open>isRiskyMove\<close>: the loop over the four corners.\<close>

definition corners :: "coordinate list" where
  "corners = [\<lparr>row = 0, col = 0\<rparr>, \<lparr>row = 0, col = 7\<rparr>, \<lparr>row = 7, col = 0\<rparr>, \<lparr>row = 7, col = 7\<rparr>]"

fun riskyCorners :: "board \<Rightarrow> int \<Rightarrow> int \<Rightarrow> coordinate list \<Rightarrow> bool option" where
  "riskyCorners b r0 c0 [] = Some False"
| "riskyCorners b r0 c0 (corner # rest) =
     do { cell \<leftarrow> rd b (row corner) (col corner);
          if cell = Elem None then
            (let dr = \<bar>row corner - r0\<bar>; dc = \<bar>col corner - c0\<bar>
             in if dr = 1 \<and> dc = 1 then Some True
                else if (dr = 1 \<and> dc = 0) \<or> (dr = 0 \<and> dc = 1) then Some True
                else riskyCorners b r0 c0 rest)
          else riskyCorners b r0 c0 rest }"

definition isRiskyMove :: "board \<Rightarrow> int \<Rightarrow> int \<Rightarrow> bool option" where
  "isRiskyMove b r0 c0 =
     (if (r0 = 0 \<or> r0 = 7) \<and> (c0 = 0 \<or> c0 = 7) then Some False
      else riskyCorners b r0 c0 corners)"

text \<open>
  \<^verbatim>\<open>evaluateBoard\<close>. \<open>countPhase\<close> is the first pair of loops (game phase detection) with
  the counters \<^verbatim>\<open>(emptyCount, myDisks, oppDisks)\<close>, \<open>cornerScore\<close> the loop over the
  corners, \<open>positional\<close> the last pair of loops. The counters \<^verbatim>\<open>myCorners\<close> and
  \<^verbatim>\<open>oppCorners\<close> of the source are written and never read.
\<close>

fun countPhase :: "board \<Rightarrow> disk \<Rightarrow> coordinate list \<Rightarrow> int \<times> int \<times> int \<Rightarrow> (int \<times> int \<times> int) option" where
  "countPhase b color [] acc = Some acc"
| "countPhase b color (p # ps) (emptyCount, myDisks, oppDisks) =
     do { cell \<leftarrow> rd b (row p) (col p);
          countPhase b color ps
            (if cell = Elem None then (emptyCount + 1, myDisks, oppDisks)
             else if cell = Elem color then (emptyCount, myDisks + 1, oppDisks)
             else (emptyCount, myDisks, oppDisks + 1)) }"

fun cornerScore :: "board \<Rightarrow> disk \<Rightarrow> disk \<Rightarrow> coordinate list \<Rightarrow> real \<Rightarrow> real option" where
  "cornerScore b color opponent [] sc = Some sc"
| "cornerScore b color opponent (p # ps) sc =
     do { cell \<leftarrow> rd b (row p) (col p);
          cornerScore b color opponent ps
            (if cell = Elem color then sc + 2000
             else if cell = Elem opponent then sc - 2000
             else sc) }"

fun positional :: "board \<Rightarrow> disk \<Rightarrow> disk \<Rightarrow> real list list \<Rightarrow> coordinate list \<Rightarrow> real \<Rightarrow> real option" where
  "positional b color opponent w [] sc = Some sc"
| "positional b color opponent w (p # ps) sc =
     do { cell \<leftarrow> rd b (row p) (col p);
          if cell = Elem color then
            do { x \<leftarrow> rdNum w (row p) (col p); positional b color opponent w ps (sc + x) }
          else if cell = Elem opponent then
            do { x \<leftarrow> rdNum w (row p) (col p); positional b color opponent w ps (sc - x) }
          else positional b color opponent w ps sc }"

definition opponentOf :: "disk \<Rightarrow> disk" where
  "opponentOf color = (if color = Some Black then Some White else Some Black)"

definition evaluateBoard :: "board \<Rightarrow> disk \<Rightarrow> real list list \<Rightarrow> real option" where
  "evaluateBoard b color learnedWeights =
     do { let opponent = opponentOf color;
          (emptyCount, myDisks, oppDisks) \<leftarrow> countPhase b color allCells (0, 0, 0);
          if emptyCount = 0 then Some (real_of_int ((myDisks - oppDisks) * 10000))
          else
            do { sc \<leftarrow> cornerScore b color opponent corners 0;
                 myMoves \<leftarrow> getValidMoves b color;
                 oppMoves \<leftarrow> getValidMoves b opponent;
                 let myMoveCount = int (length myMoves);
                 let oppMoveCount = int (length oppMoves);
                 positional b color opponent learnedWeights allCells
                   (sc + real_of_int ((myMoveCount - oppMoveCount) * 50)) } }"

text \<open>
  The move ordering of \<^verbatim>\<open>minimax\<close>: \<^verbatim>\<open>validMoves.sort((a, b) => wb - wa)\<close>, a stable
  sort by weight, descending. The comparator, and with it the reads of the weights, runs
  only when there are two moves or more.
\<close>

fun weightsOf :: "real list list \<Rightarrow> coordinate list \<Rightarrow> real list option" where
  "weightsOf w [] = Some []"
| "weightsOf w (m # ms) =
     do { x \<leftarrow> rdNum w (row m) (col m); xs \<leftarrow> weightsOf w ms; Some (x # xs) }"

definition orderMoves :: "real list list \<Rightarrow> coordinate list \<Rightarrow> coordinate list option" where
  "orderMoves w ms =
     (if length ms < 2 then Some ms
      else do { ks \<leftarrow> weightsOf w ms;
                Some (map snd (sort_key (\<lambda>km. - fst km) (zip ks ms))) })"

text \<open>
  \<^verbatim>\<open>minimax\<close> with its two \<^verbatim>\<open>for\<close> loops; \<open>maxLoop\<close> and \<open>minLoop\<close> carry the loop state
  \<^verbatim>\<open>(alpha, maxEval)\<close> and \<^verbatim>\<open>(beta, minEval)\<close>, and \<open>depth\<close> in them is the depth of
  the recursive calls. The depth is a natural number: \<^verbatim>\<open>getBestMove\<close> calls with 3, 5 or 11.
\<close>

function minimax :: "board \<Rightarrow> nat \<Rightarrow> num \<Rightarrow> num \<Rightarrow> bool \<Rightarrow> disk \<Rightarrow> real list list \<Rightarrow> num option"
  and maxLoop :: "board \<Rightarrow> nat \<Rightarrow> num \<Rightarrow> num \<Rightarrow> disk \<Rightarrow> real list list \<Rightarrow> coordinate list \<Rightarrow> num \<Rightarrow> num option"
  and minLoop :: "board \<Rightarrow> nat \<Rightarrow> num \<Rightarrow> num \<Rightarrow> disk \<Rightarrow> real list list \<Rightarrow> coordinate list \<Rightarrow> num \<Rightarrow> num option"
where
  "minimax b 0 alpha beta maximizingPlayer myColor w =
     map_option Fin (evaluateBoard b myColor w)"
| "minimax b (Suc depth) alpha beta maximizingPlayer myColor w =
     do { let opponent = opponentOf myColor;
          let currentColor = (if maximizingPlayer then myColor else opponent);
          validMoves \<leftarrow> getValidMoves b currentColor;
          if length validMoves = 0 then
            do { oppMoves \<leftarrow> getValidMoves b (if maximizingPlayer then opponent else myColor);
                 if length oppMoves = 0 then
                   (let counts = countScore b;
                        myCount = (if myColor = Some Black then fst counts else snd counts);
                        oppCount = (if myColor = Some Black then snd counts else fst counts)
                    in Some (Fin (real_of_int ((myCount - oppCount) * 100000))))
                 else minimax b depth alpha beta (\<not> maximizingPlayer) myColor w }
          else
            do { sorted \<leftarrow> orderMoves w validMoves;
                 if maximizingPlayer then maxLoop b depth alpha beta myColor w sorted NegInf
                 else minLoop b depth alpha beta myColor w sorted PosInf } }"
| "maxLoop b depth alpha beta myColor w [] maxEval = Some maxEval"
| "maxLoop b depth alpha beta myColor w (mv # rest) maxEval =
     do { nextBoard \<leftarrow> applyMove b myColor (row mv) (col mv);
          evalScore \<leftarrow> minimax nextBoard depth alpha beta False myColor w;
          let maxEval' = max maxEval evalScore;
          let alpha' = max alpha evalScore;
          if beta \<le> alpha' then Some maxEval'
          else maxLoop b depth alpha' beta myColor w rest maxEval' }"
| "minLoop b depth alpha beta myColor w [] minEval = Some minEval"
| "minLoop b depth alpha beta myColor w (mv # rest) minEval =
     do { nextBoard \<leftarrow> applyMove b (opponentOf myColor) (row mv) (col mv);
          evalScore \<leftarrow> minimax nextBoard depth alpha beta True myColor w;
          let minEval' = min minEval evalScore;
          let beta' = min beta evalScore;
          if beta' \<le> alpha then Some minEval'
          else minLoop b depth alpha beta' myColor w rest minEval' }"
  by pat_completeness auto
termination
  by (relation "inv_image (less_than <*lex*> less_than)
        (\<lambda>x. case x of
            Inl (b, depth, alpha, beta, mp, myColor, w) \<Rightarrow> (2 * depth, 0)
          | Inr (Inl (b, depth, alpha, beta, myColor, w, ms, e)) \<Rightarrow> (2 * depth + 1, length ms)
          | Inr (Inr (b, depth, alpha, beta, myColor, w, ms, e)) \<Rightarrow> (2 * depth + 1, length ms))")
     auto

declare minimax.simps [simp del]

section \<open>Learning data and move selection (services/learningService.ts)\<close>

text \<open>
  \<^verbatim>\<open>LearnedMove extends Move\<close> with a confidence score and a timestamp. The memory
  \<^verbatim>\<open>Record<string, LearnedMove>\<close> is an association list with one entry per key, in
  insertion order: the order of \<^verbatim>\<open>Object.keys\<close>, which the pruning sorts stably.
  \<^verbatim>\<open>memory[k] = v\<close> replaces the entry of an existing key in place and appends a new key
  (\<open>AList.update\<close>).
\<close>

record learnedMove = coordinate +
  score :: int
  timestamp :: int

record learningData =
  memory :: "(string \<times> learnedMove) list"
  weights :: "real list list"
  totalGames :: int
  wins :: int
  losses :: int
  experience :: int
  maxMemoryLimit :: int

definition DEFAULT_MEMORY_LIMIT :: int where
  "DEFAULT_MEMORY_LIMIT = 5000"

definition INITIAL_WEIGHTS :: "real list list" where
  "INITIAL_WEIGHTS =
     [[ 500, -100,  50,  10,  10,  50, -100,  500],
      [-100, -500, -10,  -5,  -5, -10, -500, -100],
      [  50,  -10,  20,   5,   5,  20,  -10,   50],
      [  10,   -5,   5,   1,   1,   5,   -5,   10],
      [  10,   -5,   5,   1,   1,   5,   -5,   10],
      [  50,  -10,  20,   5,   5,  20,  -10,   50],
      [-100, -500, -10,  -5,  -5, -10, -500, -100],
      [ 500, -100,  50,  10,  10,  50, -100,  500]]"

definition INITIAL_DATA :: learningData where
  "INITIAL_DATA = \<lparr>memory = [], weights = INITIAL_WEIGHTS, totalGames = 0, wins = 0,
                    losses = 0, experience = 0, maxMemoryLimit = DEFAULT_MEMORY_LIMIT\<rparr>"

definition getBoardHash :: "board \<Rightarrow> string" where
  "getBoardHash b =
     concat (map (\<lambda>rw. map (\<lambda>c. if c = None then CHR ''_''
                                  else if c = Some Black then CHR ''B'' else CHR ''W'') rw) b)"

text \<open>
  The depth schedule of \<^verbatim>\<open>getBestMove\<close> (the lines under ``ENDGAME SOLVER & MINIMAX''),
  from the number of \<^verbatim>\<open>null\<close> cells of \<^verbatim>\<open>board.flat()\<close>.
\<close>

definition searchDepth :: "board \<Rightarrow> nat" where
  "searchDepth b =
     (let emptyCount = length (filter (\<lambda>c. c = None) (concat b))
      in if emptyCount \<le> 12 then 12
         else if emptyCount \<le> 16 then 6
         else 4)"

text \<open>\<^verbatim>\<open>validMoves.filter(m => !isRiskyMove(board, m.row, m.col))\<close>.\<close>

fun safeMovesOf :: "board \<Rightarrow> coordinate list \<Rightarrow> coordinate list option" where
  "safeMovesOf b [] = Some []"
| "safeMovesOf b (m # ms) =
     do { risky \<leftarrow> isRiskyMove b (row m) (col m);
          rest \<leftarrow> safeMovesOf b ms;
          Some (if \<not> risky then m # rest else rest) }"

text \<open>
  The root loop of \<^verbatim>\<open>getBestMove\<close> with its state \<^verbatim>\<open>(bestMove, maxScore)\<close>. Each call of
  \<^verbatim>\<open>Math.random()\<close> takes the next draw of \<open>rnd\<close>, a sequence of numbers of [0, 1); the
  third component of the state counts the draws taken so far.
\<close>

fun rootLoop :: "board \<Rightarrow> disk \<Rightarrow> nat \<Rightarrow> real list list \<Rightarrow> (nat \<Rightarrow> real) \<Rightarrow> coordinate list
                 \<Rightarrow> coordinate \<times> num \<times> nat \<Rightarrow> (coordinate \<times> num \<times> nat) option" where
  "rootLoop b aiColor depth w rnd [] st = Some st"
| "rootLoop b aiColor depth w rnd (mv # rest) (bestMove, maxScore, k) =
     do { nextBoard \<leftarrow> applyMove b aiColor (row mv) (col mv);
          sc \<leftarrow> minimax nextBoard (depth - 1) NegInf PosInf False aiColor w;
          rootLoop b aiColor depth w rnd rest
            (if sc > maxScore then (mv, sc, k)
             else if sc = maxScore then ((if rnd k > 0.5 then mv else bestMove), maxScore, k + 1)
             else (bestMove, maxScore, k)) }"

text \<open>
  The exact-memory lookup of \<^verbatim>\<open>getBestMove\<close>: the remembered move, when the entry exists,
  is one of \<^verbatim>\<open>validMoves\<close>, and either fewer than 50 games were played or its score is
  positive.
\<close>

definition memoryMove :: "learningData \<Rightarrow> string \<Rightarrow> coordinate list \<Rightarrow> coordinate option" where
  "memoryMove data hash validMoves =
     (case map_of (memory data) hash of
        None \<Rightarrow> None
      | Some memEntry \<Rightarrow>
          if (\<exists>m \<in> set validMoves. row m = row memEntry \<and> col m = col memEntry)
             \<and> (totalGames data < 50 \<or> score memEntry > 0)
          then Some \<lparr>row = row memEntry, col = col memEntry\<rparr>
          else None)"

text \<open>
  \<^verbatim>\<open>getBestMove(board, validMoves, injectedBrain)\<close> with the brain injected. With an empty
  \<^verbatim>\<open>validMoves\<close> the source either throws (reading \<^verbatim>\<open>validMoves[0].row\<close>) or returns
  \<^verbatim>\<open>undefined\<close>, neither of which is a move: \<open>None\<close>.
\<close>

definition getBestMove :: "board \<Rightarrow> coordinate list \<Rightarrow> learningData \<Rightarrow> (nat \<Rightarrow> real) \<Rightarrow> coordinate option" where
  "getBestMove b validMoves data rnd =
     (case validMoves of
        [] \<Rightarrow> None
      | first # _ \<Rightarrow>
          do { let hash = getBoardHash b;
               testBlackMoves \<leftarrow> getValidMoves b (Some Black);
               let aiColor = (if \<exists>m \<in> set testBlackMoves. row m = row first \<and> col m = col first
                              then Some Black else Some White);
               case memoryMove data hash validMoves of
                 Some m \<Rightarrow> Some m
               | None \<Rightarrow>
                   do { let depth = searchDepth b;
                        safeMoves \<leftarrow> safeMovesOf b validMoves;
                        let candidateMoves =
                              (if length safeMoves > 0 \<and> depth < 10 then safeMoves else validMoves);
                        (bestMove, maxScore, k) \<leftarrow>
                           rootLoop b aiColor depth (weights data) rnd candidateMoves (first, NegInf, 0);
                        Some bestMove } })"

section \<open>Weight adaptation and memory reinforcement (\<^verbatim>\<open>trainBrain\<close>)\<close>

record turn =
  board :: board
  move :: coordinate
  color :: disk

text \<open>
  The weight update \<^verbatim>\<open>newData.weights[row][col] += 0.5\<close> (or \<^verbatim>\<open>-= 0.25\<close>) for one turn after
  the other, on the copy \<^verbatim>\<open>newData.weights\<close>. The weights are reals, as in the search:
  0.5 and 0.25 are exact in binary, and so is every sum of them in the range of a game.
\<close>

fun updateWeights :: "real list list \<Rightarrow> turn list \<Rightarrow> disk \<Rightarrow> real list list option" where
  "updateWeights w [] winner = Some w"
| "updateWeights w (t # ts) winner =
     do { x \<leftarrow> rdNum w (row (move t)) (col (move t));
          w' \<leftarrow> wr w (row (move t)) (col (move t))
                  (if color t = winner then x + 0.5 else x - 0.25);
          updateWeights w' ts winner }"

text \<open>The clamp loops over the 64 cells; \<^verbatim>\<open>undefined > 600\<close> is false.\<close>

fun clampWeights :: "real list list \<Rightarrow> coordinate list \<Rightarrow> real list list option" where
  "clampWeights w [] = Some w"
| "clampWeights w (p # ps) =
     do { x \<leftarrow> rd w (row p) (col p);
          w1 \<leftarrow> (case x of Elem v \<Rightarrow> if v > 600 then wr w (row p) (col p) 600 else Some w
                           | Undefined \<Rightarrow> Some w);
          y \<leftarrow> rd w1 (row p) (col p);
          w2 \<leftarrow> (case y of Elem v \<Rightarrow> if v < -600 then wr w1 (row p) (col p) (-600) else Some w1
                           | Undefined \<Rightarrow> Some w1);
          clampWeights w2 ps }"

text \<open>
  The reinforcement of the memory over \<^verbatim>\<open>gameHistory.slice(15, -8)\<close>. \<open>clock k\<close> is the
  value of the \<open>k\<close>-th call of \<^verbatim>\<open>Date.now()\<close>.
\<close>

fun reinforce :: "(string \<times> learnedMove) list \<Rightarrow> turn list \<Rightarrow> disk \<Rightarrow> (nat \<Rightarrow> int) \<Rightarrow> nat
                  \<Rightarrow> (string \<times> learnedMove) list" where
  "reinforce mem [] winner clock k = mem"
| "reinforce mem (t # ts) winner clock k =
     (if color t = winner then
        (let hash = getBoardHash (board t)
         in case map_of mem hash of
              Some existing \<Rightarrow>
                if row existing = row (move t) \<and> col existing = col (move t)
                then reinforce (AList.update hash
                        (existing\<lparr>score := score existing + 1, timestamp := clock k\<rparr>) mem)
                        ts winner clock (k + 1)
                else reinforce (AList.update hash
                        \<lparr>row = row (move t), col = col (move t), score = 1, timestamp = clock k\<rparr> mem)
                        ts winner clock (k + 1)
            | None \<Rightarrow>
                reinforce (AList.update hash
                        \<lparr>row = row (move t), col = col (move t), score = 1, timestamp = clock k\<rparr> mem)
                        ts winner clock (k + 1))
      else reinforce mem ts winner clock k)"

definition midGame :: "turn list \<Rightarrow> turn list" where
  "midGame gameHistory = drop 15 (take (length gameHistory - 8) gameHistory)"

text \<open>
  \<^verbatim>\<open>trainBrain(currentData, gameHistory, winner)\<close> of services/learningService.ts. The result
  is \<^verbatim>\<open>newData\<close>, built on \<^verbatim>\<open>currentData.weights.map(row => [...row])\<close>.
\<close>

definition trainBrain :: "learningData \<Rightarrow> turn list \<Rightarrow> disk \<Rightarrow> (nat \<Rightarrow> int) \<Rightarrow> learningData option" where
  "trainBrain currentData gameHistory winner clock =
     (if winner = None then Some currentData
      else
        do { w1 \<leftarrow> updateWeights (weights currentData) gameHistory winner;
             w2 \<leftarrow> clampWeights w1 allCells;
             let mem = (if length gameHistory > 20
                        then reinforce (memory currentData) (midGame gameHistory) winner clock 0
                        else memory currentData);
             Some (currentData\<lparr>weights := w2, memory := mem,
                     totalGames := totalGames currentData + 1,
                     experience := experience currentData + 150,
                     wins := wins currentData + 1\<rparr>) })"

section \<open>Persistence and memory pruning (\<^verbatim>\<open>saveBrain\<close>, \<^verbatim>\<open>pruneMemory\<close>)\<close>

text \<open>
  The comparator of the pruning sort: higher score first, then newer timestamp first.
  \<^verbatim>\<open>Array.prototype.sort\<close> is stable; with a consistent comparator its result is that of
  a stable insertion sort.
\<close>

definition entryCmp :: "string \<times> learnedMove \<Rightarrow> string \<times> learnedMove \<Rightarrow> int" where
  "entryCmp a b =
     (if score (snd a) \<noteq> score (snd b) then score (snd b) - score (snd a)
      else timestamp (snd b) - timestamp (snd a))"

fun insertBy :: "('a \<Rightarrow> 'a \<Rightarrow> int) \<Rightarrow> 'a \<Rightarrow> 'a list \<Rightarrow> 'a list" where
  "insertBy cmp x [] = [x]"
| "insertBy cmp x (y # ys) = (if cmp x y \<le> 0 then x # y # ys else y # insertBy cmp x ys)"

definition sortBy :: "('a \<Rightarrow> 'a \<Rightarrow> int) \<Rightarrow> 'a list \<Rightarrow> 'a list" where
  "sortBy cmp xs = foldr (insertBy cmp) xs []"

text \<open>
  \<^verbatim>\<open>data.maxMemoryLimit || DEFAULT_MEMORY_LIMIT\<close>: zero is falsy.
\<close>

definition limitOf :: "learningData \<Rightarrow> int" where
  "limitOf data = (if maxMemoryLimit data = 0 then DEFAULT_MEMORY_LIMIT else maxMemoryLimit data)"

text \<open>
  \<^verbatim>\<open>saveBrain\<close> of services/learningService.ts (the localStorage store). The result is the
  snapshot it writes, which is also the state of \<^verbatim>\<open>data\<close> after the call. Pruning starts
  as soon as the memory holds more than \<^verbatim>\<open>maxLimit\<close> entries and keeps
  \<^verbatim>\<open>Math.floor(maxLimit * 0.9)\<close> of them.
\<close>

definition saveBrain :: "learningData \<Rightarrow> learningData" where
  "saveBrain data =
     (let keys = map fst (memory data);
          maxLimit = limitOf data;
          keepCount = \<lfloor>real_of_int maxLimit * 0.9\<rfloor>
      in if int (length keys) > maxLimit then
           (let entries = sortBy entryCmp (memory data);
                limit = min (int (length entries)) keepCount
            in data\<lparr>memory := take (nat limit) entries\<rparr>)
         else data)"

text \<open>
  The second version of the service in the repository (the IndexedDB store) splits the
  pruning off into \<^verbatim>\<open>pruneMemory(data, limit)\<close> and starts it only when the memory holds
  more than \<^verbatim>\<open>currentLimit * 1.1\<close> entries.
\<close>

definition pruneMemory :: "learningData \<Rightarrow> int \<Rightarrow> learningData" where
  "pruneMemory data limit =
     (let keys = map fst (memory data)
      in if int (length keys) \<le> limit then data
         else (let entries = sortBy entryCmp (memory data)
               in data\<lparr>memory := take (nat limit) entries\<rparr>))"

definition saveBrainIDB :: "learningData \<Rightarrow> learningData" where
  "saveBrainIDB data =
     (let currentLimit = limitOf data
      in if real (length (map fst (memory data))) > real_of_int currentLimit * 1.1
         then pruneMemory data currentLimit
         else data)"

section \<open>Well-formed grids and the legality predicate of the specification\<close>

text \<open>
  The board of the specification is a fixed 8 by 8 grid; every board the repository builds
  (\<^verbatim>\<open>createInitialBoard\<close>, \<^verbatim>\<open>applyMove\<close>) has this shape, and so has the weight matrix.
\<close>

definition wfGrid :: "'a list list \<Rightarrow> bool" where
  "wfGrid g \<longleftrightarrow> length g = 8 \<and> list_all (\<lambda>rw. length rw = 8) g"

definition cellAt :: "'a list list \<Rightarrow> int \<Rightarrow> int \<Rightarrow> 'a" where
  "cellAt b r c = b ! nat r ! nat c"

fun opposite :: "color \<Rightarrow> color" where
  "opposite Black = White" | "opposite White = Black"

definition capturesLine :: "board \<Rightarrow> color \<Rightarrow> int \<Rightarrow> int \<Rightarrow> dir \<Rightarrow> bool" where
  "capturesLine b me r0 c0 d \<longleftrightarrow>
     (\<exists>k \<in> {1..6}.
        (\<forall>i \<in> {1..k}. inGrid (r0 + i * dRow d) (c0 + i * dCol d) \<and>
                      cellAt b (r0 + i * dRow d) (c0 + i * dCol d) = Some (opposite me)) \<and>
        inGrid (r0 + (k + 1) * dRow d) (c0 + (k + 1) * dCol d) \<and>
        cellAt b (r0 + (k + 1) * dRow d) (c0 + (k + 1) * dCol d) = Some me)"

definition legalDestination :: "board \<Rightarrow> color \<Rightarrow> int \<Rightarrow> int \<Rightarrow> bool" where
  "legalDestination b me r0 c0 \<longleftrightarrow>
     cellAt b r0 c0 = None \<and> (\<exists>d \<in> set DIRECTIONS. capturesLine b me r0 c0 d)"

definition runFrom :: "board \<Rightarrow> color \<Rightarrow> dir \<Rightarrow> int \<Rightarrow> int \<Rightarrow> bool \<Rightarrow> bool" where
  "runFrom b me d r c h \<longleftrightarrow>
     (\<exists>k::nat. (\<forall>i<k. inGrid (r + int i * dRow d) (c + int i * dCol d) \<and>
                       cellAt b (r + int i * dRow d) (c + int i * dCol d) = Some (opposite me)) \<and>
               inGrid (r + int k * dRow d) (c + int k * dCol d) \<and>
               cellAt b (r + int k * dRow d) (c + int k * dCol d) = Some me \<and>
               (h \<or> k > 0))"


text \<open>Number of cells of a board that hold \<open>x\<close> (a colour, or \<open>None\<close> for the empty cells).\<close>

definition diskCount :: "board \<Rightarrow> disk \<Rightarrow> int" where
  "diskCount b x = int (length (filter (\<lambda>cell. cell = x) (concat b)))"

text \<open>A full board with 40 black and 24 white disks.\<close>

definition board_40_24 :: board where
  "board_40_24 = replicate 5 (replicate 8 (Some Black)) @ replicate 3 (replicate 8 (Some White))"

text \<open>
  Three boards for the depth schedule: 60 empty cells (the opening), 14 empty cells and
  4 empty cells.
\<close>

definition board_14_empty :: board where
  "board_14_empty = replicate 6 (replicate 8 (Some Black))
                    @ [replicate 2 (Some White) @ replicate 6 None, replicate 8 None]"

definition board_4_empty :: board where
  "board_4_empty = replicate 7 (replicate 8 (Some Black))
                    @ [replicate 4 (Some White) @ replicate 4 None]"

text \<open>
  \<open>paintedTo x b b'\<close>: the grid \<open>b'\<close> is well formed and differs from \<open>b\<close> only in cells
  that hold \<open>x\<close> in \<open>b'\<close>. Every write of \<^verbatim>\<open>applyMove\<close> stores the mover's colour.
\<close>

definition paintedTo :: "'a \<Rightarrow> 'a list list \<Rightarrow> 'a list list \<Rightarrow> bool" where
  "paintedTo x b b' \<longleftrightarrow>
     wfGrid b' \<and> (\<forall>r c. inGrid r c \<longrightarrow> cellAt b' r c = cellAt b r c \<or> cellAt b' r c = x)"

section \<open>Arrays as objects: the heap model of the copies\<close>

text \<open>
  A JavaScript grid is an array of references to row arrays, and \<^verbatim>\<open>a[r][c] = v\<close> mutates
  a row object that every alias of the grid sees. Where a claim is about mutation and
  aliasing the functions are modelled over a heap of array objects: an address is an
  index into the heap, and allocation appends. A grid reference is the address of a
  \<open>Rows\<close> object. A dangling or ill-typed reference cannot occur in the source language;
  the reads below answer \<open>None\<close> for it.
\<close>

datatype 'a obj = Elems "'a list" | Rows "nat list"

type_synonym 'a heap = "'a obj list"

definition alloc :: "'a heap \<Rightarrow> 'a obj \<Rightarrow> nat \<times> 'a heap" where
  "alloc h ob = (length h, h @ [ob])"

definition rowsOf :: "'a heap \<Rightarrow> nat \<Rightarrow> nat list option" where
  "rowsOf h a = (if a < length h then (case h ! a of Rows rs \<Rightarrow> Some rs | Elems xs \<Rightarrow> None) else None)"

definition elemsOf :: "'a heap \<Rightarrow> nat \<Rightarrow> 'a list option" where
  "elemsOf h a = (if a < length h then (case h ! a of Elems xs \<Rightarrow> Some xs | Rows rs \<Rightarrow> None) else None)"

text \<open>The value of the grid at address \<open>a\<close>: the list of its rows.\<close>

definition gridAt :: "'a heap \<Rightarrow> nat \<Rightarrow> 'a list list option" where
  "gridAt h a = do { rs \<leftarrow> rowsOf h a; those (map (elemsOf h) rs) }"

text \<open>\<^verbatim>\<open>a[r][c]\<close> and \<^verbatim>\<open>a[r][c] = v\<close> through the references, with the cases of \<open>rd\<close> and \<open>wr\<close>.\<close>

definition rdH :: "'a heap \<Rightarrow> nat \<Rightarrow> int \<Rightarrow> int \<Rightarrow> 'a slot option" where
  "rdH h a r c =
     do { rs \<leftarrow> rowsOf h a;
          if 0 \<le> r \<and> r < int (length rs) then
            do { xs \<leftarrow> elemsOf h (rs ! nat r);
                 Some (if 0 \<le> c \<and> c < int (length xs) then Elem (xs ! nat c) else Undefined) }
          else None }"

definition wrH :: "'a heap \<Rightarrow> nat \<Rightarrow> int \<Rightarrow> int \<Rightarrow> 'a \<Rightarrow> 'a heap option" where
  "wrH h a r c v =
     do { rs \<leftarrow> rowsOf h a;
          if 0 \<le> r \<and> r < int (length rs) then
            do { xs \<leftarrow> elemsOf h (rs ! nat r);
                 if 0 \<le> c \<and> c < int (length xs)
                 then Some (h[rs ! nat r := Elems (xs[nat c := v])])
                 else None }
          else None }"

text \<open>
  \<^verbatim>\<open>grid.map(row => [...row])\<close>: a new row object for every row, then a new array of the
  new references.
\<close>

fun copyRows :: "'a heap \<Rightarrow> nat list \<Rightarrow> (nat list \<times> 'a heap) option" where
  "copyRows h [] = Some ([], h)"
| "copyRows h (ra # ras) =
     do { xs \<leftarrow> elemsOf h ra;
          (case alloc h (Elems xs) of (a1, h1) \<Rightarrow>
             do { (as, h2) \<leftarrow> copyRows h1 ras; Some (a1 # as, h2) }) }"

definition copyGrid :: "'a heap \<Rightarrow> nat \<Rightarrow> (nat \<times> 'a heap) option" where
  "copyGrid h a =
     do { rs \<leftarrow> rowsOf h a;
          (as, h1) \<leftarrow> copyRows h rs;
          Some (alloc h1 (Rows as)) }"

text \<open>
  \<^verbatim>\<open>applyMove\<close> over the heap: \<open>boardRef\<close> is the address of the caller's board, the result
  is the address of \<^verbatim>\<open>newBoard\<close> and the heap after the call.
\<close>

fun flipAllH :: "disk heap \<Rightarrow> nat \<Rightarrow> disk \<Rightarrow> coordinate list \<Rightarrow> disk heap option" where
  "flipAllH h newBoard x [] = Some h"
| "flipAllH h newBoard x (pos # rest) =
     do { h' \<leftarrow> wrH h newBoard (row pos) (col pos) x; flipAllH h' newBoard x rest }"

function scanFlipH :: "disk heap \<Rightarrow> nat \<Rightarrow> disk \<Rightarrow> dir \<Rightarrow> int \<Rightarrow> int \<Rightarrow> coordinate list \<Rightarrow> disk heap option" where
  "scanFlipH h newBoard x d r c disksToFlip =
     (if inGrid r c then
        do { cell \<leftarrow> rdH h newBoard r c;
             if cell = Elem None then Some h
             else if cell \<noteq> Elem x
               then scanFlipH h newBoard x d (r + dRow d) (c + dCol d)
                      (disksToFlip @ [\<lparr>row = r, col = c\<rparr>])
             else if length disksToFlip > 0 then flipAllH h newBoard x disksToFlip
             else Some h }
      else Some h)"
  by pat_completeness auto
termination
proof (relation "measure (\<lambda>(h, nb, x, d, r, c, fs). stepsLeft d r c)")
  show "wf (measure (\<lambda>(h, nb, x, d, r, c, fs). stepsLeft d r c))"
    by simp
next
  fix h :: "disk heap" and newBoard :: nat and x :: disk and d r c
    and disksToFlip :: "coordinate list" and x2 :: "disk slot"
  assume "inGrid r c"
  then show "((h, newBoard, x, d, r + dRow d, c + dCol d, disksToFlip @ [\<lparr>row = r, col = c\<rparr>]),
              h, newBoard, x, d, r, c, disksToFlip)
        \<in> measure (\<lambda>(h, nb, x, d, r, c, fs). stepsLeft d r c)"
    by (cases d) (simp_all add: stepsLeft_def inGrid_def BOARD_SIZE_def)
qed

declare scanFlipH.simps [simp del]

fun flipDirsH :: "disk heap \<Rightarrow> nat \<Rightarrow> disk \<Rightarrow> int \<Rightarrow> int \<Rightarrow> dir list \<Rightarrow> disk heap option" where
  "flipDirsH h newBoard x r0 c0 [] = Some h"
| "flipDirsH h newBoard x r0 c0 (d # ds) =
     do { h' \<leftarrow> scanFlipH h newBoard x d (r0 + dRow d) (c0 + dCol d) [];
          flipDirsH h' newBoard x r0 c0 ds }"

definition applyMoveH :: "disk heap \<Rightarrow> nat \<Rightarrow> disk \<Rightarrow> int \<Rightarrow> int \<Rightarrow> (nat \<times> disk heap) option" where
  "applyMoveH h boardRef x r0 c0 =
     do { (newBoard, h1) \<leftarrow> copyGrid h boardRef;
          h2 \<leftarrow> wrH h1 newBoard r0 c0 x;
          h3 \<leftarrow> flipDirsH h2 newBoard x r0 c0 DIRECTIONS;
          Some (newBoard, h3) }"

text \<open>
  \<open>holds h a rs g\<close>: the grid at \<open>a\<close> has the row objects \<open>rs\<close>, no two of them the same
  object, and the value \<open>g\<close>. \<open>frame rs h h'\<close>: from \<open>h\<close> to \<open>h'\<close> no object was allocated
  and only the objects \<open>rs\<close> may have changed.
\<close>

definition holds :: "'a heap \<Rightarrow> nat \<Rightarrow> nat list \<Rightarrow> 'a list list \<Rightarrow> bool" where
  "holds h a rs g \<longleftrightarrow>
     rowsOf h a = Some rs \<and> distinct rs \<and> those (map (elemsOf h) rs) = Some g"

definition frame :: "nat list \<Rightarrow> 'a heap \<Rightarrow> 'a heap \<Rightarrow> bool" where
  "frame rs h h' \<longleftrightarrow>
     length h' = length h \<and> (\<forall>a < length h. a \<notin> set rs \<longrightarrow> h' ! a = h ! a)"

text \<open>
  Two heaps that hold the opening position: one with the eight rows first and the board
  at address 8, one with an unrelated object in front and the board at address 0 before
  its rows.
\<close>

definition heapA :: "disk heap" where
  "heapA = map Elems createInitialBoard @ [Rows [0 ..< 8]]"

definition heapB :: "disk heap" where
  "heapB = Rows [2 ..< 10] # Elems [Some White] # map Elems createInitialBoard"

section \<open>The three terms of the evaluator\<close>

text \<open>
  The heuristic score of a board that is not full, term by term as the specification
  lists them (a colour \<open>me\<close>, its opponent \<open>opposite me\<close>): 2000 for or against each
  corner held, 50 for each legal move of difference, and the weight of every occupied
  cell for or against.
\<close>

definition cornerTerm :: "board \<Rightarrow> color \<Rightarrow> real" where
  "cornerTerm b me =
     sum_list (map (\<lambda>p. if cellAt b (row p) (col p) = Some me then 2000
                          else if cellAt b (row p) (col p) = Some (opposite me) then - 2000
                          else 0) corners)"

definition mobilityTerm :: "board \<Rightarrow> color \<Rightarrow> real" where
  "mobilityTerm b me =
     real_of_int ((int (length (filter (\<lambda>p. legalDestination b me (row p) (col p)) allCells))
                   - int (length (filter (\<lambda>p. legalDestination b (opposite me) (row p) (col p)) allCells)))
                  * 50)"

definition positionTerm :: "board \<Rightarrow> color \<Rightarrow> real list list \<Rightarrow> real" where
  "positionTerm b me w =
     sum_list (map (\<lambda>p. if cellAt b (row p) (col p) = Some me then cellAt w (row p) (col p)
                          else if cellAt b (row p) (col p) = Some (opposite me)
                            then - cellAt w (row p) (col p)
                          else 0) allCells)"

section \<open>The root of the search, named\<close>

text \<open>
  Three quantities of \<^verbatim>\<open>getBestMove\<close>, named to state what the root loop selects: the
  colour it infers for the mover, the candidate moves after the risk filter, and the
  final search score of a candidate (the value \<^verbatim>\<open>score\<close> of the loop body).
\<close>

definition inferColor :: "board \<Rightarrow> coordinate \<Rightarrow> disk option" where
  "inferColor b first =
     do { testBlackMoves \<leftarrow> getValidMoves b (Some Black);
          Some (if \<exists>m \<in> set testBlackMoves. row m = row first \<and> col m = col first
                then Some Black else Some White) }"

definition rootCandidates :: "board \<Rightarrow> coordinate list \<Rightarrow> coordinate list option" where
  "rootCandidates b validMoves =
     do { safeMoves \<leftarrow> safeMovesOf b validMoves;
          Some (if length safeMoves > 0 \<and> searchDepth b < 10 then safeMoves else validMoves) }"

definition rootScore :: "board \<Rightarrow> disk \<Rightarrow> nat \<Rightarrow> real list list \<Rightarrow> coordinate \<Rightarrow> num option" where
  "rootScore b aiColor depth w mv =
     do { nextBoard \<leftarrow> applyMove b aiColor (row mv) (col mv);
          minimax nextBoard (depth - 1) NegInf PosInf False aiColor w }"

text \<open>
  Two positions for the tie-break, Black to move. In \<open>tieBoard3\<close> each of the three
  legal moves captures the only white disk and ends the game with five black disks: three
  candidates of equal score. In \<open>tieBoard2\<close> two moves lead to a won game and the third
  to a lower score.
\<close>

definition tieBoard3 :: board where
  "tieBoard3 = (let e = replicate 8 None in
     [e, e, e,
      [None, None, None, Some White, Some Black, None, None, None],
      [None, None, None, Some Black, Some Black, None, None, None],
      e, e, e])"

definition tieMoves3 :: "coordinate list" where
  "tieMoves3 = [\<lparr>row = 2, col = 2\<rparr>, \<lparr>row = 2, col = 3\<rparr>, \<lparr>row = 3, col = 2\<rparr>]"

definition tieBoard2 :: board where
  "tieBoard2 = (let e = replicate 8 None in
     [e, e, e,
      [None, None, None, Some White, Some Black, None, None, None],
      [None, None, None, Some Black, None, None, None, None],
      e,
      [None, None, None, None, None, None, Some White, Some Black],
      e])"

definition tieMoves2 :: "coordinate list" where
  "tieMoves2 = [\<lparr>row = 2, col = 3\<rparr>, \<lparr>row = 3, col = 2\<rparr>, \<lparr>row = 6, col = 5\<rparr>]"

text \<open>
  A sequence of draws of \<^verbatim>\<open>Math.random()\<close> from the outcomes of the test \<^verbatim>\<open>> 0.5\<close>: the
  \<open>k\<close>-th draw is 0.75 where the list says true, 0.25 elsewhere.
\<close>

definition drawsOf :: "bool list \<Rightarrow> nat \<Rightarrow> real" where
  "drawsOf bs k = (if k < length bs \<and> bs ! k then 0.75 else 0.25)"

section \<open>Ranking and eviction, as the specification words them\<close>

text \<open>
  \<open>rankedBefore a b\<close>: entry \<open>a\<close> ranks at least as high as entry \<open>b\<close> (higher confidence,
  or the same confidence and a timestamp at least as new). \<open>keepsTop k old new\<close>: \<open>new\<close>
  holds the \<open>k\<close> top-ranked entries of \<open>old\<close> (all of them if there are fewer), in rank
  order, and every other entry of \<open>old\<close> is discarded.
\<close>

definition rankedBefore :: "string \<times> learnedMove \<Rightarrow> string \<times> learnedMove \<Rightarrow> bool" where
  "rankedBefore a b \<longleftrightarrow>
     score (snd a) > score (snd b) \<or>
     score (snd a) = score (snd b) \<and> timestamp (snd a) \<ge> timestamp (snd b)"

definition keepsTop :: "nat \<Rightarrow> (string \<times> learnedMove) list \<Rightarrow> (string \<times> learnedMove) list \<Rightarrow> bool" where
  "keepsTop k old new \<longleftrightarrow>
     (\<exists>discarded. mset old = mset new + mset discarded \<and>
                  length new = min k (length old) \<and>
                  sorted_wrt rankedBefore new \<and>
                  (\<forall>a \<in> set new. \<forall>b \<in> set discarded. rankedBefore a b))"

text \<open>
  A memory of 150 entries with distinct keys and distinct ranks (entry \<open>i\<close> has confidence
  \<open>i\<close>), its first 101 and 105 entries, and snapshots of capacity 100 around them.
\<close>

definition memoryOf :: "nat \<Rightarrow> (string \<times> learnedMove) list" where
  "memoryOf n = map (\<lambda>i. (replicate (Suc i) (CHR ''B''),
                            \<lparr>row = 0, col = 0, score = int i, timestamp = 0\<rparr>)) [0 ..< n]"

definition snapshotOf :: "nat \<Rightarrow> learningData" where
  "snapshotOf n = INITIAL_DATA\<lparr>memory := memoryOf n, maxMemoryLimit := 100\<rparr>"

section \<open>The weight update over the heap\<close>

text \<open>
  The lines of \<^verbatim>\<open>trainBrain\<close> that touch the weights, over the heap: \<open>weightsRef\<close> is the
  address of \<^verbatim>\<open>currentData.weights\<close>, the result is the address of \<^verbatim>\<open>newData.weights\<close>
  and the heap after the call. The copy comes first; with a \<^verbatim>\<open>null\<close> winner the function
  returns right after it.
\<close>

definition rdNumH :: "real heap \<Rightarrow> nat \<Rightarrow> int \<Rightarrow> int \<Rightarrow> real option" where
  "rdNumH h a r c =
     do { x \<leftarrow> rdH h a r c;
          case x of Elem v \<Rightarrow> Some v | Undefined \<Rightarrow> None }"

fun updateWeightsH :: "real heap \<Rightarrow> nat \<Rightarrow> turn list \<Rightarrow> disk \<Rightarrow> real heap option" where
  "updateWeightsH h nw [] winner = Some h"
| "updateWeightsH h nw (t # ts) winner =
     do { x \<leftarrow> rdNumH h nw (row (move t)) (col (move t));
          h' \<leftarrow> wrH h nw (row (move t)) (col (move t))
                  (if color t = winner then x + 0.5 else x - 0.25);
          updateWeightsH h' nw ts winner }"

fun clampWeightsH :: "real heap \<Rightarrow> nat \<Rightarrow> coordinate list \<Rightarrow> real heap option" where
  "clampWeightsH h nw [] = Some h"
| "clampWeightsH h nw (p # ps) =
     do { x \<leftarrow> rdH h nw (row p) (col p);
          h1 \<leftarrow> (case x of Elem v \<Rightarrow> if v > 600 then wrH h nw (row p) (col p) 600 else Some h
                           | Undefined \<Rightarrow> Some h);
          y \<leftarrow> rdH h1 nw (row p) (col p);
          h2 \<leftarrow> (case y of Elem v \<Rightarrow> if v < -600 then wrH h1 nw (row p) (col p) (-600) else Some h1
                           | Undefined \<Rightarrow> Some h1);
          clampWeightsH h2 nw ps }"

definition trainWeightsH :: "real heap \<Rightarrow> nat \<Rightarrow> turn list \<Rightarrow> disk \<Rightarrow> (nat \<times> real heap) option" where
  "trainWeightsH h weightsRef gameHistory winner =
     do { (nw, h1) \<leftarrow> copyGrid h weightsRef;
          if winner = None then Some (nw, h1)
          else do { h2 \<leftarrow> updateWeightsH h1 nw gameHistory winner;
                    h3 \<leftarrow> clampWeightsH h2 nw allCells;
                    Some (nw, h3) } }"

text \<open>
  The numbers of the specification: how many moves of the history the winner made at a
  cell, how many the other side made there (every turn whose colour is not the winner's),
  and the clamp to [-600, 600].
\<close>

definition winnerMovesAt :: "turn list \<Rightarrow> disk \<Rightarrow> int \<Rightarrow> int \<Rightarrow> nat" where
  "winnerMovesAt ts winner r c =
     length (filter (\<lambda>t. row (move t) = r \<and> col (move t) = c \<and> color t = winner) ts)"

definition loserMovesAt :: "turn list \<Rightarrow> disk \<Rightarrow> int \<Rightarrow> int \<Rightarrow> nat" where
  "loserMovesAt ts winner r c =
     length (filter (\<lambda>t. row (move t) = r \<and> col (move t) = c \<and> color t \<noteq> winner) ts)"

definition clamp600 :: "real \<Rightarrow> real" where
  "clamp600 x = (if x > 600 then 600 else if x < -600 then -600 else x)"

text \<open>
  A short history, won by Black: Black moves to (0, 0), White to (0, 1). A weight matrix
  at the upper bound of the clamp and one at the lower bound, and a heap holding a matrix.
\<close>

definition shortGame :: "turn list" where
  "shortGame = [\<lparr>board = createInitialBoard, move = \<lparr>row = 0, col = 0\<rparr>, color = Some Black\<rparr>,
                \<lparr>board = createInitialBoard, move = \<lparr>row = 0, col = 1\<rparr>, color = Some White\<rparr>]"

definition constWeights :: "real \<Rightarrow> real list list" where
  "constWeights x = replicate 8 (replicate 8 x)"

definition heapOf :: "real list list \<Rightarrow> real heap" where
  "heapOf w = map Elems w @ [Rows [0 ..< length w]]"

text \<open>
  Positions for the order of the tiers. In \<open>cornerBoard\<close> Black holds the corner (0, 0)
  and White five inner cells, and neither side has a move. \<open>board_33_31\<close> is full, 33
  black disks against 31. \<open>blackOnly40\<close> holds 40 black disks and no white one.
\<close>

definition cornerBoard :: board where
  "cornerBoard = (let e = replicate 8 None in
     [[Some Black, None, None, None, None, None, None, None],
      [None, None, Some White, Some White, None, None, None, None],
      [None, Some White, None, None, None, None, None, None],
      [None, Some White, None, None, None, None, None, None],
      [None, Some White, None, None, None, None, None, None],
      e, e, e])"

definition board_33_31 :: board where
  "board_33_31 = replicate 4 (replicate 8 (Some Black))
                 @ [Some Black # replicate 7 (Some White)]
                 @ replicate 3 (replicate 8 (Some White))"

definition blackOnly40 :: board where
  "blackOnly40 = replicate 5 (replicate 8 (Some Black)) @ replicate 3 (replicate 8 None)"

section \<open>Legality: the scan of \<^verbatim>\<open>isValidMove\<close> against the specification\<close>

lemma rd_wf: "wfGrid b \<Longrightarrow> inGrid r c \<Longrightarrow> rd b r c = Some (Elem (cellAt b r c))"
  by (auto simp: wfGrid_def inGrid_def rd_def cellAt_def BOARD_SIZE_def list_all_iff)

lemma opposite_neq [simp]: "opposite me \<noteq> me" "me \<noteq> opposite me"
  by (cases me; simp)+

lemma color_cases3: "x = None \<or> x = Some me \<or> x = Some (opposite me)"
  by (cases x; cases me; auto) (metis color.exhaust)+

lemma runFrom_out: "\<not> inGrid r c \<Longrightarrow> \<not> runFrom b me d r c h"
  unfolding runFrom_def
proof (rule notI, elim exE conjE)
  fix k :: nat
  assume out: "\<not> inGrid r c"
    and run: "\<forall>i<k. inGrid (r + int i * dRow d) (c + int i * dCol d) \<and>
                       cellAt b (r + int i * dRow d) (c + int i * dCol d) = Some (opposite me)"
    and own: "inGrid (r + int k * dRow d) (c + int k * dCol d)"
  show False
  proof (cases k)
    case 0 with own out show ?thesis by simp
  next
    case (Suc j) with run have "inGrid (r + int 0 * dRow d) (c + int 0 * dCol d)" by blast
    with out show ?thesis by simp
  qed
qed

lemma runFrom_step:
  assumes "inGrid r c"
  shows "runFrom b me d r c h \<longleftrightarrow>
     (if cellAt b r c = None then False
      else if cellAt b r c = Some (opposite me) then runFrom b me d (r + dRow d) (c + dCol d) True
      else h)"
proof -
  let ?opp = "\<lambda>r c i. inGrid (r + int i * dRow d) (c + int i * dCol d) \<and>
                       cellAt b (r + int i * dRow d) (c + int i * dCol d) = Some (opposite me)"
  let ?own = "\<lambda>r c k. inGrid (r + int k * dRow d) (c + int k * dCol d) \<and>
               cellAt b (r + int k * dRow d) (c + int k * dCol d) = Some me"
  have shift: "?opp r c (Suc i) = ?opp (r + dRow d) (c + dCol d) i"
       "?own r c (Suc i) = ?own (r + dRow d) (c + dCol d) i" for i
    by (simp_all add: algebra_simps)
  consider (empty) "cellAt b r c = None" | (own) "cellAt b r c = Some me"
    | (opp) "cellAt b r c = Some (opposite me)"
    using color_cases3[of "cellAt b r c" me] by auto
  then show ?thesis
  proof cases
    case empty
    have "\<not> runFrom b me d r c h"
      unfolding runFrom_def
    proof (rule notI, elim exE conjE)
      fix k :: nat
      assume run: "\<forall>i<k. ?opp r c i" and own: "cellAt b (r + int k * dRow d) (c + int k * dCol d) = Some me"
      show False
      proof (cases k)
        case 0 with own empty show ?thesis by simp
      next
        case (Suc j) with run have "?opp r c 0" by blast
        with empty show ?thesis by simp
      qed
    qed
    with empty show ?thesis by simp
  next
    case own
    have "runFrom b me d r c h \<longleftrightarrow> h"
    proof
      assume "runFrom b me d r c h"
      then obtain k where run: "\<forall>i<k. ?opp r c i" and h: "h \<or> k > 0"
        unfolding runFrom_def by blast
      show h
      proof (cases k)
        case 0 with h show ?thesis by simp
      next
        case (Suc j) with run have "?opp r c 0" by blast
        with own show ?thesis by simp
      qed
    next
      assume h
      with own assms show "runFrom b me d r c h"
        unfolding runFrom_def by (intro exI[of _ 0]) simp
    qed
    with own show ?thesis by simp
  next
    case opp
    have "runFrom b me d r c h \<longleftrightarrow> runFrom b me d (r + dRow d) (c + dCol d) True"
    proof
      assume "runFrom b me d r c h"
      then obtain k where run: "\<forall>i<k. ?opp r c i" and own: "?own r c k"
        unfolding runFrom_def by blast
      show "runFrom b me d (r + dRow d) (c + dCol d) True"
      proof (cases k)
        case 0 with own opp show ?thesis by simp
      next
        case (Suc j)
        with run have "\<forall>i<j. ?opp r c (Suc i)" by auto
        then have "\<forall>i<j. ?opp (r + dRow d) (c + dCol d) i" unfolding shift .
        moreover from own Suc have "?own (r + dRow d) (c + dCol d) j" unfolding shift[symmetric] by simp
        ultimately show ?thesis unfolding runFrom_def by (intro exI[of _ j]) simp
      qed
    next
      assume "runFrom b me d (r + dRow d) (c + dCol d) True"
      then obtain j where run: "\<forall>i<j. ?opp (r + dRow d) (c + dCol d) i"
        and own: "?own (r + dRow d) (c + dCol d) j"
        unfolding runFrom_def by blast
      have "\<forall>i<Suc j. ?opp r c i"
      proof (intro allI impI)
        fix i assume "i < Suc j"
        show "?opp r c i"
        proof (cases i)
          case 0 with opp assms show ?thesis by simp
        next
          case (Suc i')
          with \<open>i < Suc j\<close> run have "?opp (r + dRow d) (c + dCol d) i'" by simp
          then show ?thesis unfolding Suc shift .
        qed
      qed
      moreover from own have "?own r c (Suc j)" unfolding shift .
      ultimately show "runFrom b me d r c h"
        unfolding runFrom_def by (intro exI[of _ "Suc j"]) simp
    qed
    with opp show ?thesis by simp
  qed
qed

lemma scanValid_runFrom:
  assumes "wfGrid b"
  shows "scanValid b (Some me) d r c h = Some (runFrom b me d r c h)"
  using assms
proof (induction b "Some me :: disk" d r c h rule: scanValid.induct)
  case (1 b d r c hasOpponent)
  show ?case
  proof (cases "inGrid r c")
    case False
    then show ?thesis by (subst scanValid.simps) (simp add: runFrom_out)
  next
    case True
    note rdc = rd_wf[OF "1.prems" True]
    show ?thesis
    proof (cases "cellAt b r c = Some (opposite me)")
      case opp: True
      have "scanValid b (Some me) d (r + dRow d) (c + dCol d) True
            = Some (runFrom b me d (r + dRow d) (c + dCol d) True)"
        using "1.hyps"[OF True rdc _ _ "1.prems"] opp by simp
      then show ?thesis
        by (subst scanValid.simps) (simp add: True rdc opp runFrom_step[OF True])
    next
      case False
      then show ?thesis
        using color_cases3[of "cellAt b r c" me]
        by (subst scanValid.simps) (auto simp add: True rdc runFrom_step[OF True])
    qed
  qed
qed

lemma validDirs_runFrom:
  assumes "wfGrid b"
  shows "validDirs b (Some me) r0 c0 ds
         = Some (\<exists>d \<in> set ds. runFrom b me d (r0 + dRow d) (c0 + dCol d) False)"
  by (induction ds) (simp_all add: scanValid_runFrom[OF assms])

lemma run_bound:
  assumes "inGrid r0 c0" "inGrid (r0 + k * dRow d) (c0 + k * dCol d)" "k \<ge> 0"
  shows "k \<le> 7"
  using assms by (cases d) (auto simp: inGrid_def BOARD_SIZE_def)

lemma runFrom_capturesLine:
  assumes "inGrid r0 c0"
  shows "runFrom b me d (r0 + dRow d) (c0 + dCol d) False \<longleftrightarrow> capturesLine b me r0 c0 d"
proof
  assume "runFrom b me d (r0 + dRow d) (c0 + dCol d) False"
  then obtain k :: nat where k: "k > 0"
    and run: "\<And>i. i < k \<Longrightarrow> inGrid (r0 + dRow d + int i * dRow d) (c0 + dCol d + int i * dCol d) \<and>
                  cellAt b (r0 + dRow d + int i * dRow d) (c0 + dCol d + int i * dCol d) = Some (opposite me)"
    and own: "inGrid (r0 + dRow d + int k * dRow d) (c0 + dCol d + int k * dCol d)"
             "cellAt b (r0 + dRow d + int k * dRow d) (c0 + dCol d + int k * dCol d) = Some me"
    unfolding runFrom_def by auto
  have eq: "r0 + dRow d + j * dRow d = r0 + (j + 1) * dRow d"
           "c0 + dCol d + j * dCol d = c0 + (j + 1) * dCol d" for j
    by (simp_all add: algebra_simps)
  from own have own': "inGrid (r0 + (int k + 1) * dRow d) (c0 + (int k + 1) * dCol d)"
      "cellAt b (r0 + (int k + 1) * dRow d) (c0 + (int k + 1) * dCol d) = Some me"
    unfolding eq by simp_all
  from run_bound[OF assms own'(1)] have "int k \<le> 6" by simp
  with k have "int k \<in> {1..6}" by simp
  moreover have "\<forall>i \<in> {1..int k}. inGrid (r0 + i * dRow d) (c0 + i * dCol d) \<and>
                      cellAt b (r0 + i * dRow d) (c0 + i * dCol d) = Some (opposite me)"
  proof
    fix i assume "i \<in> {1..int k}"
    then have "nat (i - 1) < k" "int (nat (i - 1)) + 1 = i" by auto
    with run[of "nat (i - 1)"] show "inGrid (r0 + i * dRow d) (c0 + i * dCol d) \<and>
                      cellAt b (r0 + i * dRow d) (c0 + i * dCol d) = Some (opposite me)"
      unfolding eq by simp
  qed
  ultimately show "capturesLine b me r0 c0 d"
    unfolding capturesLine_def using own' by blast
next
  assume "capturesLine b me r0 c0 d"
  then obtain k :: int where k: "1 \<le> k"
    and run: "\<And>i. 1 \<le> i \<Longrightarrow> i \<le> k \<Longrightarrow> inGrid (r0 + i * dRow d) (c0 + i * dCol d) \<and>
                      cellAt b (r0 + i * dRow d) (c0 + i * dCol d) = Some (opposite me)"
    and own: "inGrid (r0 + (k + 1) * dRow d) (c0 + (k + 1) * dCol d)"
        "cellAt b (r0 + (k + 1) * dRow d) (c0 + (k + 1) * dCol d) = Some me"
    unfolding capturesLine_def by auto
  have eq: "r0 + dRow d + j * dRow d = r0 + (j + 1) * dRow d"
           "c0 + dCol d + j * dCol d = c0 + (j + 1) * dCol d" for j
    by (simp_all add: algebra_simps)
  have "\<forall>i<nat k. inGrid (r0 + dRow d + int i * dRow d) (c0 + dCol d + int i * dCol d) \<and>
                  cellAt b (r0 + dRow d + int i * dRow d) (c0 + dCol d + int i * dCol d) = Some (opposite me)"
  proof (intro allI impI)
    fix i assume "i < nat k"
    then have "1 \<le> int i + 1" "int i + 1 \<le> k" by auto
    from run[OF this] show "inGrid (r0 + dRow d + int i * dRow d) (c0 + dCol d + int i * dCol d) \<and>
                  cellAt b (r0 + dRow d + int i * dRow d) (c0 + dCol d + int i * dCol d) = Some (opposite me)"
      unfolding eq .
  qed
  moreover from own k have "inGrid (r0 + dRow d + int (nat k) * dRow d) (c0 + dCol d + int (nat k) * dCol d)"
    "cellAt b (r0 + dRow d + int (nat k) * dRow d) (c0 + dCol d + int (nat k) * dCol d) = Some me"
    unfolding eq by simp_all
  moreover from k have "nat k > 0" by simp
  ultimately show "runFrom b me d (r0 + dRow d) (c0 + dCol d) False"
    unfolding runFrom_def by blast
qed

lemma isValidMove_legal:
  assumes "wfGrid b" "inGrid r0 c0"
  shows "isValidMove b (Some me) r0 c0 = Some (legalDestination b me r0 c0)"
  unfolding isValidMove_def legalDestination_def
  by (simp add: rd_wf[OF assms] validDirs_runFrom[OF assms(1)] runFrom_capturesLine[OF assms(2)])

lemma collectValid_filter:
  assumes "wfGrid b" "\<forall>p \<in> set ps. inGrid (row p) (col p)"
  shows "collectValid b (Some me) ps acc
         = Some (acc @ filter (\<lambda>p. legalDestination b me (row p) (col p)) ps)"
  using assms(2)
  by (induction ps arbitrary: acc) (simp_all add: isValidMove_legal[OF assms(1)])

lemma mem_allCells: "\<lparr>row = r, col = c\<rparr> \<in> set allCells \<longleftrightarrow> inGrid r c"
  by (auto simp: allCells_def inGrid_def BOARD_SIZE_def image_iff)

lemma set_allCells: "set allCells = {p. inGrid (row p) (col p)}"
proof (intro set_eqI)
  fix p :: coordinate
  show "p \<in> set allCells \<longleftrightarrow> p \<in> {p. inGrid (row p) (col p)}"
    using mem_allCells[of "row p" "col p"] by (cases p) simp
qed

lemma distinct_allCells: "distinct allCells"
  by code_simp

lemma getValidMoves_filter:
  assumes "wfGrid b"
  shows "getValidMoves b (Some me)
         = Some (filter (\<lambda>p. legalDestination b me (row p) (col p)) allCells)"
  unfolding getValidMoves_def
  using collectValid_filter[OF assms, of allCells me "[]"] set_allCells by simp

lemma wfGrid_createInitialBoard: "wfGrid createInitialBoard"
  by (simp add: wfGrid_def createInitialBoard_def Let_def)

text \<open>
  Claim C7. On an 8 by 8 board, for a colour \<open>me\<close> and every cell of the grid,
  \<^verbatim>\<open>isValidMove\<close> returns true exactly when the cell is empty and some direction holds a
  non-empty contiguous run of opponent disks, starting next to the cell and ended by a disk
  of the mover's colour (inside the grid, with no empty cell in between); and
  \<^verbatim>\<open>getValidMoves\<close> returns exactly the cells of the grid for which this holds, each once.
\<close>

theorem legal_moves_spec:
  assumes "wfGrid b"
  shows "(\<forall>r0 c0. inGrid r0 c0 \<longrightarrow>
            isValidMove b (Some me) r0 c0 = Some (legalDestination b me r0 c0)) \<and>
         (\<exists>ms. getValidMoves b (Some me) = Some ms \<and> distinct ms \<and>
               set ms = {p. inGrid (row p) (col p) \<and> legalDestination b me (row p) (col p)})"
  using assms
  by (auto simp: isValidMove_legal getValidMoves_filter distinct_allCells set_allCells)

theorem legal_moves_spec_witness:
  "wfGrid createInitialBoard \<and> inGrid 2 3 \<and>
   isValidMove createInitialBoard (Some Black) 2 3 = Some True \<and>
   legalDestination createInitialBoard Black 2 3 \<and>
   \<not> legalDestination createInitialBoard Black 0 0"
proof -
  have wf: "wfGrid createInitialBoard"
    by (simp add: wfGrid_def createInitialBoard_def Let_def)
  have g: "inGrid 2 3" "inGrid 0 0" by (simp_all add: inGrid_def BOARD_SIZE_def)
  have v: "isValidMove createInitialBoard (Some Black) 2 3 = Some True"
          "isValidMove createInitialBoard (Some Black) 0 0 = Some False"
    by code_simp+
  from legal_moves_spec[OF wf, of Black] g v show ?thesis
    using wf by auto
qed


section \<open>The evaluator on a full board\<close>

lemma upto_0_7: "[0..7] = map int [0..<8]"
  by code_simp

lemma cells_concat:
  assumes "wfGrid b"
  shows "map (\<lambda>p. cellAt b (row p) (col p)) allCells = concat b"
proof -
  from assms have len: "length b = 8" and rows: "\<And>i. i < 8 \<Longrightarrow> length (b ! i) = 8"
    by (auto simp: wfGrid_def list_all_iff)
  have inner: "map ((!) (b ! i)) [0..<8] = b ! i" if "i < 8" for i
    using map_nth[of "b ! i"] rows[OF that] by simp
  have outer: "map ((!) b) [0..<8] = b"
    using map_nth[of b] len by simp
  have "map (\<lambda>p. cellAt b (row p) (col p)) allCells
        = concat (map (\<lambda>i. map ((!) (b ! i)) [0..<8]) [0..<8])"
    unfolding allCells_def BOARD_SIZE_def cellAt_def
    by (simp add: map_concat comp_def upto_0_7 del: upto.simps)
  also have "\<dots> = concat (map ((!) b) [0..<8])"
  proof -
    have "map (\<lambda>i. map ((!) (b ! i)) [0..<8]) [0..<8] = map ((!) b) [0..<8]"
    proof (rule map_cong[OF refl])
      fix x :: nat assume "x \<in> set [0..<8]"
      then have "x < 8" by simp
      then show "map ((!) (b ! x)) [0..<8] = b ! x" by (rule inner)
    qed
    then show ?thesis by (rule arg_cong)
  qed
  finally show ?thesis by (simp only: outer)
qed

lemma countPhase_counts:
  assumes "wfGrid b" "\<forall>p \<in> set ps. inGrid (row p) (col p)"
  shows "countPhase b x ps (e, m, q)
         = Some (e + int (length (filter (\<lambda>cell. cell = None) (map (\<lambda>p. cellAt b (row p) (col p)) ps))),
                 m + int (length (filter (\<lambda>cell. cell \<noteq> None \<and> cell = x) (map (\<lambda>p. cellAt b (row p) (col p)) ps))),
                 q + int (length (filter (\<lambda>cell. cell \<noteq> None \<and> cell \<noteq> x) (map (\<lambda>p. cellAt b (row p) (col p)) ps))))"
  using assms(2)
  by (induction ps arbitrary: e m q) (auto simp: rd_wf[OF assms(1)])

lemma countPhase_allCells:
  assumes "wfGrid b"
  shows "countPhase b x allCells (0, 0, 0)
         = Some (diskCount b None,
                 int (length (filter (\<lambda>cell. cell \<noteq> None \<and> cell = x) (concat b))),
                 int (length (filter (\<lambda>cell. cell \<noteq> None \<and> cell \<noteq> x) (concat b))))"
  using countPhase_counts[OF assms, of allCells x 0 0 0]
  by (simp add: set_allCells cells_concat[OF assms] diskCount_def)

lemma filter_full:
  assumes "None \<notin> set xs"
  shows "filter (\<lambda>cell. cell \<noteq> None \<and> cell = Some me) xs = filter (\<lambda>cell. cell = Some me) xs"
    "filter (\<lambda>cell. cell \<noteq> None \<and> cell \<noteq> Some me) xs = filter (\<lambda>cell. cell = Some (opposite me)) xs"
  using assms
  by (auto intro!: filter_cong) (metis color_cases3 opposite_neq(1) option.inject)+

lemma evaluateBoard_full:
  assumes "wfGrid b" "diskCount b None = 0"
  shows "evaluateBoard b (Some me) w
         = Some (real_of_int ((diskCount b (Some me) - diskCount b (Some (opposite me))) * 10000))"
proof -
  from assms(2) have "None \<notin> set (concat b)"
    by (auto simp: diskCount_def filter_empty_conv)
  from filter_full[OF this, of me] assms(2) show ?thesis
    unfolding evaluateBoard_def
    by (simp add: countPhase_allCells[OF assms(1)] diskCount_def)
qed

text \<open>
  Claim C8. On a board with no empty cell, \<^verbatim>\<open>evaluateBoard\<close> returns
  \<open>(myDisks - oppDisks) * 10000\<close>, whatever the weight matrix, the corners and the
  mobility; a full board with 40 black and 24 white disks is worth 160000 to Black.
\<close>

theorem endgame_score:
  assumes "wfGrid b" "diskCount b None = 0"
  shows "evaluateBoard b (Some me) w
         = Some (real_of_int ((diskCount b (Some me) - diskCount b (Some (opposite me))) * 10000))"
  using assms by (rule evaluateBoard_full)

theorem endgame_score_witness:
  "wfGrid board_40_24 \<and> diskCount board_40_24 None = 0 \<and>
   diskCount board_40_24 (Some Black) = 40 \<and> diskCount board_40_24 (Some White) = 24 \<and>
   evaluateBoard board_40_24 (Some Black) INITIAL_WEIGHTS = Some 160000"
proof -
  have 1: "wfGrid board_40_24" by code_simp
  have 2: "diskCount board_40_24 None = 0" by code_simp
  have 3: "diskCount board_40_24 (Some Black) = 40" "diskCount board_40_24 (Some White) = 24"
    by code_simp+
  from endgame_score[OF 1 2, of Black INITIAL_WEIGHTS] 1 2 3 show ?thesis by simp
qed

section \<open>The depth schedule\<close>

text \<open>
  Claim C3, as stated, fails: with at most 12 empty cells the depth is the constant 12,
  not the number of empty cells. On a board with 4 empty cells the depth is 12.
\<close>

theorem depth_schedule_counterexample:
  "diskCount board_4_empty None = 4 \<and> searchDepth board_4_empty = 12 \<and>
   int (searchDepth board_4_empty) \<noteq> diskCount board_4_empty None"
  by code_simp

text \<open>
  Claim C3, amended. With \<open>e\<close> the number of empty cells of the board, the depth of
  \<^verbatim>\<open>getBestMove\<close> is 12 if \<open>e \<le> 12\<close> (never less than \<open>e\<close>), 6 if \<open>12 < e \<le> 16\<close>, and
  4 otherwise.
\<close>

theorem depth_schedule:
  "(diskCount b None \<le> 12 \<longrightarrow> searchDepth b = 12 \<and> diskCount b None \<le> int (searchDepth b)) \<and>
   (12 < diskCount b None \<and> diskCount b None \<le> 16 \<longrightarrow> searchDepth b = 6) \<and>
   (16 < diskCount b None \<longrightarrow> searchDepth b = 4)"
  by (auto simp: searchDepth_def diskCount_def Let_def)

theorem depth_schedule_witness:
  "diskCount board_4_empty None = 4 \<and> searchDepth board_4_empty = 12 \<and>
   diskCount board_14_empty None = 14 \<and> searchDepth board_14_empty = 6 \<and>
   diskCount createInitialBoard None = 60 \<and> searchDepth createInitialBoard = 4"
proof -
  have e: "diskCount board_4_empty None = 4" "diskCount board_14_empty None = 14"
    "diskCount createInitialBoard None = 60"
    by code_simp+
  from depth_schedule[of board_4_empty] depth_schedule[of board_14_empty]
    depth_schedule[of createInitialBoard] e
  show ?thesis by simp
qed

section \<open>\<^verbatim>\<open>applyMove\<close> on well-formed boards\<close>

lemma wr_wf:
  assumes "wfGrid b" "inGrid r c"
  shows "wr b r c x = Some (b[nat r := (b ! nat r)[nat c := x]])"
  using assms by (auto simp: wr_def wfGrid_def inGrid_def BOARD_SIZE_def list_all_iff)

lemma wfGrid_update:
  assumes "wfGrid b" "inGrid r c"
  shows "wfGrid (b[nat r := (b ! nat r)[nat c := x]])"
  using assms
  by (auto simp: wfGrid_def inGrid_def BOARD_SIZE_def list_all_iff dest!: set_update_subset_insert[THEN subsetD])

lemma cellAt_update:
  assumes "wfGrid b" "inGrid r c" "inGrid r' c'"
  shows "cellAt (b[nat r := (b ! nat r)[nat c := x]]) r' c'
         = (if r' = r \<and> c' = c then x else cellAt b r' c')"
  using assms
  by (auto simp: cellAt_def wfGrid_def inGrid_def BOARD_SIZE_def list_all_iff nth_list_update)

lemma paintedTo_refl: "wfGrid b \<Longrightarrow> paintedTo x b b"
  by (simp add: paintedTo_def)

lemma paintedTo_trans: "paintedTo x b b' \<Longrightarrow> paintedTo x b' b'' \<Longrightarrow> paintedTo x b b''"
  unfolding paintedTo_def by metis

lemma paintedTo_keeps: "paintedTo x b b' \<Longrightarrow> inGrid r c \<Longrightarrow> cellAt b r c = x \<Longrightarrow> cellAt b' r c = x"
  unfolding paintedTo_def by metis

lemma wr_paintedTo:
  assumes "wfGrid b" "inGrid r c"
  shows "\<exists>b'. wr b r c x = Some b' \<and> paintedTo x b b' \<and> cellAt b' r c = x"
  using assms
  by (simp add: wr_wf paintedTo_def wfGrid_update cellAt_update)

lemma flipAll_paintedTo:
  assumes "wfGrid nb" "\<forall>p \<in> set fs. inGrid (row p) (col p)"
  shows "\<exists>nb'. flipAll nb x fs = Some nb' \<and> paintedTo x nb nb'"
  using assms
proof (induction fs arbitrary: nb)
  case Nil
  then show ?case by (simp add: paintedTo_refl)
next
  case (Cons p fs)
  from Cons.prems obtain b1 where b1: "wr nb (row p) (col p) x = Some b1" "paintedTo x nb b1"
    using wr_paintedTo[of nb "row p" "col p" x] by auto
  then have "wfGrid b1" by (simp add: paintedTo_def)
  with Cons obtain b2 where "flipAll b1 x fs = Some b2" "paintedTo x b1 b2"
    by fastforce
  with b1 show ?case by (auto intro: paintedTo_trans)
qed

lemma scanFlip_paintedTo:
  assumes "wfGrid nb" "\<forall>p \<in> set fs. inGrid (row p) (col p)"
  shows "\<exists>nb'. scanFlip nb x d r c fs = Some nb' \<and> paintedTo x nb nb'"
  using assms
proof (induction nb x d r c fs rule: scanFlip.induct)
  case (1 nb x d r c fs)
  show ?case
  proof (cases "inGrid r c")
    case False
    then show ?thesis using "1.prems" by (subst scanFlip.simps) (simp add: paintedTo_refl)
  next
    case True
    note rdc = rd_wf[OF "1.prems"(1) True]
    consider (empty) "cellAt nb r c = None" | (own) "cellAt nb r c \<noteq> None" "cellAt nb r c = x"
      | (opp) "cellAt nb r c \<noteq> None" "cellAt nb r c \<noteq> x" by blast
    then show ?thesis
    proof cases
      case empty
      then show ?thesis using "1.prems" True
        by (subst scanFlip.simps) (simp add: rdc paintedTo_refl)
    next
      case own
      then show ?thesis using "1.prems" True flipAll_paintedTo[OF "1.prems", of x]
        by (subst scanFlip.simps) (auto simp add: rdc paintedTo_refl)
    next
      case opp
      have "\<forall>p \<in> set (fs @ [\<lparr>row = r, col = c\<rparr>]). inGrid (row p) (col p)"
        using "1.prems"(2) True by simp
      from "1.IH"[OF True rdc _ _ "1.prems"(1) this] opp
      have "\<exists>nb'. scanFlip nb x d (r + dRow d) (c + dCol d) (fs @ [\<lparr>row = r, col = c\<rparr>]) = Some nb'
               \<and> paintedTo x nb nb'" by simp
      then show ?thesis using opp True
        by (subst scanFlip.simps) (auto simp add: rdc)
    qed
  qed
qed

lemma flipDirs_paintedTo:
  assumes "wfGrid nb"
  shows "\<exists>nb'. flipDirs nb x r0 c0 ds = Some nb' \<and> paintedTo x nb nb'"
  using assms
proof (induction ds arbitrary: nb)
  case Nil
  then show ?case by (simp add: paintedTo_refl)
next
  case (Cons d ds)
  from scanFlip_paintedTo[OF Cons.prems, of "[]" x d "r0 + dRow d" "c0 + dCol d"]
  obtain b1 where b1: "scanFlip nb x d (r0 + dRow d) (c0 + dCol d) [] = Some b1" "paintedTo x nb b1"
    by auto
  then have "wfGrid b1" by (simp add: paintedTo_def)
  from Cons.IH[OF this] obtain b2 where "flipDirs b1 x r0 c0 ds = Some b2" "paintedTo x b1 b2"
    by auto
  with b1 show ?case by (auto intro: paintedTo_trans)
qed

lemma applyMove_total:
  assumes "wfGrid b" "inGrid r0 c0"
  shows "\<exists>b'. applyMove b x r0 c0 = Some b' \<and> wfGrid b' \<and> paintedTo x b b' \<and> cellAt b' r0 c0 = x"
proof -
  from wr_paintedTo[OF assms, of x] obtain b1 where
    b1: "wr b r0 c0 x = Some b1" "paintedTo x b b1" "cellAt b1 r0 c0 = x" by auto
  then have "wfGrid b1" by (simp add: paintedTo_def)
  from flipDirs_paintedTo[OF this, of x r0 c0 DIRECTIONS] obtain b2 where
    b2: "flipDirs b1 x r0 c0 DIRECTIONS = Some b2" "paintedTo x b1 b2" by auto
  have "applyMove b x r0 c0 = Some b2"
    unfolding applyMove_def using b1(1) b2(1) by simp
  moreover have "paintedTo x b b2"
    using b1(2) b2(2) by (rule paintedTo_trans)
  moreover have "cellAt b2 r0 c0 = x"
    using b2(2) assms(2) b1(3) by (rule paintedTo_keeps)
  ultimately show ?thesis by (simp add: paintedTo_def)
qed

lemma scanFlip_noflip:
  assumes "wfGrid nb" "\<not> runFrom nb me d r c (fs \<noteq> [])"
  shows "scanFlip nb (Some me) d r c fs = Some nb"
  using assms
proof (induction nb "Some me :: disk" d r c fs rule: scanFlip.induct)
  case (1 nb d r c fs)
  show ?case
  proof (cases "inGrid r c")
    case False
    then show ?thesis by (subst scanFlip.simps) simp
  next
    case True
    note rdc = rd_wf[OF "1.prems"(1) True]
    note step = runFrom_step[OF True, of nb me d]
    show ?thesis
    proof (cases "cellAt nb r c = Some (opposite me)")
      case opp: True
      from "1.prems"(2) opp have "\<not> runFrom nb me d (r + dRow d) (c + dCol d) (fs @ [\<lparr>row = r, col = c\<rparr>] \<noteq> [])"
        by (simp add: step)
      from "1.hyps"[OF True rdc _ _ "1.prems"(1) this] opp
      have "scanFlip nb (Some me) d (r + dRow d) (c + dCol d) (fs @ [\<lparr>row = r, col = c\<rparr>]) = Some nb"
        by simp
      then show ?thesis using opp True
        by (subst scanFlip.simps) (simp add: rdc)
    next
      case False
      then show ?thesis
        using color_cases3[of "cellAt nb r c" me] "1.prems"(2) True
        by (subst scanFlip.simps) (auto simp add: rdc step)
    qed
  qed
qed

lemma flipDirs_noflip:
  assumes "wfGrid nb" "\<forall>d \<in> set ds. \<not> runFrom nb me d (r0 + dRow d) (c0 + dCol d) False"
  shows "flipDirs nb (Some me) r0 c0 ds = Some nb"
  using assms(2)
  by (induction ds) (simp_all add: scanFlip_noflip[OF assms(1)])

lemma ray_off_origin: "(r0 + dRow d + int i * dRow d, c0 + dCol d + int i * dCol d) \<noteq> (r0, c0)"
  by (cases d) auto

lemma runFrom_after_place:
  assumes "wfGrid b" "inGrid r0 c0"
  shows "runFrom (b[nat r0 := (b ! nat r0)[nat c0 := x]]) me d (r0 + dRow d) (c0 + dCol d) h
         \<longleftrightarrow> runFrom b me d (r0 + dRow d) (c0 + dCol d) h"
proof -
  have "cellAt (b[nat r0 := (b ! nat r0)[nat c0 := x]]) (r0 + dRow d + int i * dRow d) (c0 + dCol d + int i * dCol d)
        = cellAt b (r0 + dRow d + int i * dRow d) (c0 + dCol d + int i * dCol d)"
    if "inGrid (r0 + dRow d + int i * dRow d) (c0 + dCol d + int i * dCol d)" for i
    using cellAt_update[OF assms that] ray_off_origin[of r0 d i c0] by auto
  then show ?thesis
    unfolding runFrom_def by (metis (no_types, lifting))
qed

lemma applyMove_not_legal:
  assumes "wfGrid b" "inGrid r0 c0" "cellAt b r0 c0 = None" "\<not> legalDestination b me r0 c0"
  shows "applyMove b (Some me) r0 c0 = Some (b[nat r0 := (b ! nat r0)[nat c0 := Some me]])"
proof -
  let ?nb = "b[nat r0 := (b ! nat r0)[nat c0 := Some me]]"
  from assms(3,4) have "\<forall>d \<in> set DIRECTIONS. \<not> capturesLine b me r0 c0 d"
    by (simp add: legalDestination_def)
  moreover have "runFrom ?nb me d (r0 + dRow d) (c0 + dCol d) False \<longleftrightarrow> capturesLine b me r0 c0 d" for d
    using runFrom_after_place[OF assms(1,2), of "Some me" me d False]
      runFrom_capturesLine[OF assms(2), of b me d] by (simp only:)
  ultimately have "\<forall>d \<in> set DIRECTIONS. \<not> runFrom ?nb me d (r0 + dRow d) (c0 + dCol d) False"
    by (simp only:)
  from flipDirs_noflip[OF wfGrid_update[OF assms(1,2)] this] show ?thesis
    unfolding applyMove_def by (simp add: wr_wf[OF assms(1,2)])
qed

section \<open>The heap model simulates the functions on values\<close>

lemma those_map_Some:
  "those (map f xs) = Some ys \<longleftrightarrow> length ys = length xs \<and> (\<forall>i < length xs. f (xs ! i) = Some (ys ! i))"
proof (induction xs arbitrary: ys)
  case Nil
  then show ?case by auto
next
  case (Cons x xs)
  show ?case
  proof (cases "f x")
    case None
    then show ?thesis by (auto intro: exI[of _ 0])
  next
    case (Some y)
    show ?thesis
    proof (cases ys)
      case Nil
      then show ?thesis using Some by auto
    next
      case (Cons z zs)
      then show ?thesis using Some Cons.IH[of zs]
        by (auto simp: nth_Cons split: nat.splits) 
    qed
  qed
qed

lemma rel_option_bindI:
  assumes "rel_option R m1 m2" "\<And>x y. R x y \<Longrightarrow> rel_option S (f x) (g y)"
  shows "rel_option S (m1 \<bind> f) (m2 \<bind> g)"
  using assms by (cases m1; cases m2) auto

lemma holds_elems:
  assumes "holds h a rs g"
  shows "length g = length rs" "i < length rs \<Longrightarrow> elemsOf h (rs ! i) = Some (g ! i)"
  using assms by (auto simp: holds_def those_map_Some)

lemma holds_gridAt: "holds h a rs g \<Longrightarrow> gridAt h a = Some g"
  by (simp add: holds_def gridAt_def)

lemma holds_rd:
  assumes "holds h a rs g"
  shows "rdH h a r c = rd g r c"
proof -
  from assms have rs: "rowsOf h a = Some rs" by (simp add: holds_def)
  show ?thesis
  proof (cases "0 \<le> r \<and> r < int (length rs)")
    case True
    then have "elemsOf h (rs ! nat r) = Some (g ! nat r)"
      using holds_elems(2)[OF assms, of "nat r"] by (simp add: nat_less_iff)
    with True show ?thesis
      by (simp add: rdH_def rd_def rs holds_elems(1)[OF assms])
  next
    case False
    then show ?thesis
      by (auto simp add: rdH_def rd_def rs holds_elems(1)[OF assms])
  qed
qed

lemma frame_refl: "frame rs h h"
  by (simp add: frame_def)

lemma frame_trans: "frame rs h h' \<Longrightarrow> frame rs h' h'' \<Longrightarrow> frame rs h h''"
  by (simp add: frame_def)

lemma holds_wr:
  assumes "holds h a rs g"
  shows "rel_option (\<lambda>h' g'. holds h' a rs g' \<and> frame rs h h') (wrH h a r c v) (wr g r c v)"
proof -
  from assms have rs: "rowsOf h a = Some rs" and dist: "distinct rs" by (simp_all add: holds_def)
  note len = holds_elems(1)[OF assms]
  show ?thesis
  proof (cases "0 \<le> r \<and> r < int (length rs)")
    case False
    then show ?thesis by (auto simp add: wrH_def wr_def rs len)
  next
    case True
    then have i: "nat r < length rs" by (simp add: nat_less_iff)
    have xs: "elemsOf h (rs ! nat r) = Some (g ! nat r)"
      using holds_elems(2)[OF assms i] .
    show ?thesis
    proof (cases "0 \<le> c \<and> c < int (length (g ! nat r))")
      case False
      with True show ?thesis by (auto simp add: wrH_def wr_def rs len xs)
    next
      case inrow: True
      let ?h' = "h[rs ! nat r := Elems ((g ! nat r)[nat c := v])]"
      let ?g' = "g[nat r := (g ! nat r)[nat c := v]]"
      from xs have ra: "rs ! nat r < length h" "h ! (rs ! nat r) = Elems (g ! nat r)"
        by (auto simp: elemsOf_def split: if_splits obj.splits)
      from rs have a: "a < length h" "h ! a = Rows rs"
        by (auto simp: rowsOf_def split: if_splits obj.splits)
      from ra a have neq: "a \<noteq> rs ! nat r" by auto
      have rows': "rowsOf ?h' a = Some rs"
        using a neq by (simp add: rowsOf_def)
      have elems': "elemsOf ?h' (rs ! j) = Some (?g' ! j)" if "j < length rs" for j
      proof (cases "j = nat r")
        case True
        with ra i len show ?thesis by (simp add: elemsOf_def)
      next
        case False
        with dist that i have "rs ! j \<noteq> rs ! nat r" by (simp add: nth_eq_iff_index_eq)
        with holds_elems(2)[OF assms that] False show ?thesis
          by (auto simp add: elemsOf_def split: if_splits)
      qed
      have "holds ?h' a rs ?g'"
        unfolding holds_def using rows' dist elems' len by (simp add: those_map_Some)
      moreover have "frame rs h ?h'"
        unfolding frame_def
      proof (intro conjI allI impI)
        show "length ?h' = length h" by simp
      next
        fix b assume "b < length h" "b \<notin> set rs"
        with nth_mem[OF i] have "rs ! nat r \<noteq> b" by auto
        then show "?h' ! b = h ! b" by simp
      qed
      ultimately show ?thesis
        using True inrow by (simp add: wrH_def wr_def rs len xs)
    qed
  qed
qed

lemma flipAllH_sim:
  assumes "holds h a rs g"
  shows "rel_option (\<lambda>h' g'. holds h' a rs g' \<and> frame rs h h') (flipAllH h a x fs) (flipAll g x fs)"
  using assms
proof (induction fs arbitrary: h g)
  case Nil
  then show ?case by (simp add: frame_refl)
next
  case (Cons p fs)
  show ?case
    unfolding flipAllH.simps flipAll.simps
  proof (rule rel_option_bindI[OF holds_wr[OF Cons.prems]])
    fix h1 g1 assume 1: "holds h1 a rs g1 \<and> frame rs h h1"
    from Cons.IH[of h1 g1] 1
    have "rel_option (\<lambda>h' g'. holds h' a rs g' \<and> frame rs h1 h') (flipAllH h1 a x fs) (flipAll g1 x fs)"
      by simp
    then show "rel_option (\<lambda>h' g'. holds h' a rs g' \<and> frame rs h h') (flipAllH h1 a x fs) (flipAll g1 x fs)"
      using 1 by (auto simp: rel_option_iff split: option.splits intro: frame_trans)
  qed
qed

lemma scanFlipH_sim:
  assumes "holds h a rs g"
  shows "rel_option (\<lambda>h' g'. holds h' a rs g' \<and> frame rs h h')
           (scanFlipH h a x d r c fs) (scanFlip g x d r c fs)"
  using assms
proof (induction g x d r c fs rule: scanFlip.induct)
  case (1 g x d r c fs)
  note rdeq = holds_rd[OF "1.prems", of r c]
  show ?case
  proof (cases "inGrid r c")
    case False
    then show ?thesis using "1.prems"
      by (subst scanFlipH.simps, subst scanFlip.simps) (simp add: frame_refl)
  next
    case True
    show ?thesis
    proof (cases "rd g r c")
      case None
      then show ?thesis using True
        by (subst scanFlipH.simps, subst scanFlip.simps) (simp add: rdeq)
    next
      case (Some cell)
      consider (empty) "cell = Elem None" | (opp) "cell \<noteq> Elem None" "cell \<noteq> Elem x"
        | (own) "cell \<noteq> Elem None" "cell = Elem x" by blast
      then show ?thesis
      proof cases
        case empty
        then show ?thesis using True Some "1.prems"
          by (subst scanFlipH.simps, subst scanFlip.simps) (simp add: rdeq frame_refl)
      next
        case opp
        from "1.IH"[OF True Some opp "1.prems"] opp True Some show ?thesis
          by (subst scanFlipH.simps, subst scanFlip.simps) (simp add: rdeq)
      next
        case own
        then show ?thesis using True Some "1.prems" flipAllH_sim[OF "1.prems", of x fs]
          by (subst scanFlipH.simps, subst scanFlip.simps) (auto simp add: rdeq frame_refl)
      qed
    qed
  qed
qed

lemma flipDirsH_sim:
  assumes "holds h a rs g"
  shows "rel_option (\<lambda>h' g'. holds h' a rs g' \<and> frame rs h h')
           (flipDirsH h a x r0 c0 ds) (flipDirs g x r0 c0 ds)"
  using assms
proof (induction ds arbitrary: h g)
  case Nil
  then show ?case by (simp add: frame_refl)
next
  case (Cons d ds)
  show ?case
    unfolding flipDirsH.simps flipDirs.simps
  proof (rule rel_option_bindI[OF scanFlipH_sim[OF Cons.prems]])
    fix h1 g1 assume 1: "holds h1 a rs g1 \<and> frame rs h h1"
    from Cons.IH[of h1 g1] 1
    have "rel_option (\<lambda>h' g'. holds h' a rs g' \<and> frame rs h1 h') (flipDirsH h1 a x r0 c0 ds) (flipDirs g1 x r0 c0 ds)"
      by simp
    then show "rel_option (\<lambda>h' g'. holds h' a rs g' \<and> frame rs h h') (flipDirsH h1 a x r0 c0 ds) (flipDirs g1 x r0 c0 ds)"
      using 1 by (auto simp: rel_option_iff split: option.splits intro: frame_trans)
  qed
qed


lemma elemsOf_append:
  "elemsOf h a = Some xs \<Longrightarrow> elemsOf (h @ h') a = Some xs"
  by (auto simp: elemsOf_def nth_append split: if_splits)

lemma rowsOf_append:
  "rowsOf h a = Some rs \<Longrightarrow> rowsOf (h @ h') a = Some rs"
  by (auto simp: rowsOf_def nth_append split: if_splits)

lemma copyRows_appends:
  assumes "those (map (elemsOf h) ras) = Some g"
  shows "copyRows h ras = Some ([length h ..< length h + length g], h @ map Elems g)"
  using assms
proof (induction ras arbitrary: h g)
  case Nil
  then show ?case by simp
next
  case (Cons ra ras)
  from Cons.prems obtain xs g' where g: "g = xs # g'" "elemsOf h ra = Some xs"
    "those (map (elemsOf h) ras) = Some g'"
    by (auto split: option.splits)
  have "those (map (elemsOf (h @ [Elems xs])) ras) = Some g'"
    using g(3) by (auto simp: those_map_Some elemsOf_append)
  from Cons.IH[OF this]
  have "copyRows (h @ [Elems xs]) ras
        = Some ([Suc (length h) ..< Suc (length h + length g')], h @ Elems xs # map Elems g')"
    by (simp del: upt_Suc)
  moreover have "[length h ..< length h + length g] = length h # [Suc (length h) ..< Suc (length h + length g')]"
    using g(1) by (simp add: upt_conv_Cons del: upt_Suc)
  ultimately show ?case
    using g(1,2) by (simp add: alloc_def del: upt_Suc)
qed

lemma copyGrid_fresh:
  assumes "gridAt h a = Some g"
  shows "copyGrid h a = Some (length h + length g,
                              h @ map Elems g @ [Rows [length h ..< length h + length g]])"
    and "holds (h @ map Elems g @ [Rows [length h ..< length h + length g]])
               (length h + length g) [length h ..< length h + length g] g"
proof -
  let ?rs = "[length h ..< length h + length g]"
  let ?h1 = "h @ map Elems g @ [Rows ?rs]"
  from assms obtain rs where rs: "rowsOf h a = Some rs" "those (map (elemsOf h) rs) = Some g"
    by (auto simp: gridAt_def split: bind_splits)
  show "copyGrid h a = Some (length h + length g, ?h1)"
    unfolding copyGrid_def by (simp add: rs copyRows_appends[OF rs(2)] alloc_def)
  have "rowsOf ?h1 (length h + length g) = Some ?rs"
    by (simp add: rowsOf_def nth_append)
  moreover have "elemsOf ?h1 (?rs ! i) = Some (g ! i)" if "i < length ?rs" for i
    using that by (simp add: elemsOf_def nth_append)
  ultimately show "holds ?h1 (length h + length g) ?rs g"
    unfolding holds_def by (simp add: those_map_Some)
qed

lemma gridAt_prefix:
  assumes "gridAt h a = Some g" "take (length h) h' = h"
  shows "gridAt h' a = Some g"
proof -
  from assms(2) obtain t where h': "h' = h @ t"
    by (metis append_take_drop_id)
  from assms(1) obtain rs where rs: "rowsOf h a = Some rs" "those (map (elemsOf h) rs) = Some g"
    by (auto simp: gridAt_def split: bind_splits)
  have "those (map (elemsOf (h @ t)) rs) = Some g"
    using rs(2) by (auto simp: those_map_Some elemsOf_append)
  then show ?thesis
    unfolding gridAt_def h' by (simp add: rowsOf_append[OF rs(1)])
qed

lemma frame_fresh_prefix:
  assumes "frame rs (h @ t) h'" "\<forall>ra \<in> set rs. length h \<le> ra"
  shows "take (length h) h' = h"
proof (rule nth_equalityI)
  from assms(1) show "length (take (length h) h') = length h"
    by (simp add: frame_def)
next
  fix i assume "i < length (take (length h) h')"
  then have i: "i < length h" by simp
  with assms(2) have "i \<notin> set rs" by auto
  with assms(1) i have "h' ! i = (h @ t) ! i" by (simp add: frame_def)
  with i show "take (length h) h' ! i = h ! i" by (simp add: nth_append)
qed

text \<open>
  The heap model of \<^verbatim>\<open>applyMove\<close> against the function on values: it fails exactly when
  the function fails; otherwise the new board has the value the function computes, the
  heap of the caller is a prefix of the new heap (no object of the caller was written),
  and the new board and its rows are objects allocated by the call.
\<close>

lemma applyMoveH_sim:
  assumes "gridAt h a = Some g"
  shows "rel_option
           (\<lambda>(nb, h') g'. gridAt h' nb = Some g' \<and> take (length h) h' = h \<and> length h \<le> nb \<and>
                (\<exists>rs. rowsOf h' nb = Some rs \<and> distinct rs \<and> (\<forall>ra \<in> set rs. length h \<le> ra)))
           (applyMoveH h a x r0 c0) (applyMove g x r0 c0)"
proof -
  let ?rs = "[length h ..< length h + length g]"
  let ?nb = "length h + length g"
  let ?h1 = "h @ map Elems g @ [Rows ?rs]"
  let ?R = "\<lambda>h' g'. holds h' ?nb ?rs g' \<and> frame ?rs ?h1 h'"
  note cp = copyGrid_fresh[OF assms]
  have 1: "rel_option ?R (wrH ?h1 ?nb r0 c0 x) (wr g r0 c0 x)"
    by (rule holds_wr[OF cp(2)])
  have 2: "rel_option ?R (wrH ?h1 ?nb r0 c0 x \<bind> (\<lambda>h2. flipDirsH h2 ?nb x r0 c0 DIRECTIONS))
             (wr g r0 c0 x \<bind> (\<lambda>nb. flipDirs nb x r0 c0 DIRECTIONS))"
  proof (rule rel_option_bindI[OF 1])
    fix h2 g2 assume a2: "holds h2 ?nb ?rs g2 \<and> frame ?rs ?h1 h2"
    then have "rel_option (\<lambda>h' g'. holds h' ?nb ?rs g' \<and> frame ?rs h2 h')
                 (flipDirsH h2 ?nb x r0 c0 DIRECTIONS) (flipDirs g2 x r0 c0 DIRECTIONS)"
      using flipDirsH_sim by blast
    then show "rel_option ?R (flipDirsH h2 ?nb x r0 c0 DIRECTIONS) (flipDirs g2 x r0 c0 DIRECTIONS)"
      using a2 by (auto simp: rel_option_iff split: option.splits intro: frame_trans)
  qed
  have 3: "gridAt h' ?nb = Some g' \<and> take (length h) h' = h \<and> length h \<le> ?nb \<and>
           (\<exists>rs. rowsOf h' ?nb = Some rs \<and> distinct rs \<and> (\<forall>ra \<in> set rs. length h \<le> ra))"
    if "?R h' g'" for h' g'
  proof -
    from that have "holds h' ?nb ?rs g'" "frame ?rs (h @ (map Elems g @ [Rows ?rs])) h'" by simp_all
    then show ?thesis
      using frame_fresh_prefix[of ?rs h _ h'] holds_gridAt[of h' ?nb ?rs g']
      by (auto simp: holds_def)
  qed
  show ?thesis
    unfolding applyMoveH_def applyMove_def using 2 3
    by (auto simp: cp(1) rel_option_iff split: option.splits bind_splits)
qed

section \<open>Purity of \<^verbatim>\<open>applyMove\<close> and illegal moves\<close>

text \<open>
  Claim C9. \<^verbatim>\<open>applyMove\<close> is pure. On an 8 by 8 board and a cell of the grid the call
  returns; no object of the caller's heap is written, so the input board has its old
  value after the call; the result and its rows are objects allocated by the call, not
  aliases of the input; and the value of the result is a function of the value of the
  input, so two calls on copies of the same board, colour and move give identical boards.
\<close>

theorem applyMove_pure:
  assumes "gridAt h1 a1 = Some g" "gridAt h2 a2 = Some g" "wfGrid g" "inGrid r0 c0"
  shows "\<exists>nb1 h1' nb2 h2' g'.
           applyMoveH h1 a1 x r0 c0 = Some (nb1, h1') \<and>
           applyMoveH h2 a2 x r0 c0 = Some (nb2, h2') \<and>
           take (length h1) h1' = h1 \<and> gridAt h1' a1 = Some g \<and>
           length h1 \<le> nb1 \<and>
           (\<exists>rs. rowsOf h1' nb1 = Some rs \<and> (\<forall>ra \<in> set rs. length h1 \<le> ra)) \<and>
           gridAt h1' nb1 = Some g' \<and> gridAt h2' nb2 = Some g' \<and>
           applyMove g x r0 c0 = Some g'"
proof -
  from applyMove_total[OF assms(3,4), of x] obtain g' where g': "applyMove g x r0 c0 = Some g'"
    by blast
  from applyMoveH_sim[OF assms(1), of x r0 c0] g'
  obtain nb1 h1' where 1: "applyMoveH h1 a1 x r0 c0 = Some (nb1, h1')"
    "gridAt h1' nb1 = Some g'" "take (length h1) h1' = h1" "length h1 \<le> nb1"
    "\<exists>rs. rowsOf h1' nb1 = Some rs \<and> distinct rs \<and> (\<forall>ra \<in> set rs. length h1 \<le> ra)"
    by (auto simp: option_rel_Some2)
  from applyMoveH_sim[OF assms(2), of x r0 c0] g'
  obtain nb2 h2' where 2: "applyMoveH h2 a2 x r0 c0 = Some (nb2, h2')"
    "gridAt h2' nb2 = Some g'"
    by (auto simp: option_rel_Some2)
  from gridAt_prefix[OF assms(1) 1(3)] have "gridAt h1' a1 = Some g" .
  with 1 2 g' show ?thesis by blast
qed

theorem applyMove_pure_witness:
  "gridAt heapA 8 = Some createInitialBoard \<and> gridAt heapB 0 = Some createInitialBoard \<and>
   wfGrid createInitialBoard \<and> inGrid 2 3 \<and>
   (\<exists>nb1 h1' nb2 h2' g'.
      applyMoveH heapA 8 (Some Black) 2 3 = Some (nb1, h1') \<and>
      applyMoveH heapB 0 (Some Black) 2 3 = Some (nb2, h2') \<and>
      take (length heapA) h1' = heapA \<and> gridAt h1' 8 = Some createInitialBoard \<and>
      gridAt h1' nb1 = Some g' \<and> gridAt h2' nb2 = Some g')"
proof -
  have a: "gridAt heapA 8 = Some createInitialBoard" by code_simp
  have b: "gridAt heapB 0 = Some createInitialBoard" by code_simp
  have g: "inGrid 2 3" by (simp add: inGrid_def BOARD_SIZE_def)
  from applyMove_pure[OF a b wfGrid_createInitialBoard g, of "Some Black"] a b g
    wfGrid_createInitialBoard
  show ?thesis by blast
qed

text \<open>
  Claim C1, as stated, fails: \<^verbatim>\<open>applyMove\<close> has no legality check. In the opening position
  the corner (0, 0) is not a legal move of Black, and the call returns a board, with a
  black disk in the corner and no disk flipped.
\<close>

theorem applyMove_illegal_counterexample:
  "getValidMoves createInitialBoard (Some Black)
     = Some [\<lparr>row = 2, col = 3\<rparr>, \<lparr>row = 3, col = 2\<rparr>, \<lparr>row = 4, col = 5\<rparr>, \<lparr>row = 5, col = 4\<rparr>] \<and>
   applyMove createInitialBoard (Some Black) 0 0
     = Some (createInitialBoard[0 := Some Black # replicate 7 None]) \<and>
   map_option fst (applyMoveH heapA 8 (Some Black) 0 0) = Some 17"
  by code_simp

text \<open>
  Claim C1, amended. For every 8 by 8 board, colour and cell of the grid that is not in
  the legal moves of the colour, \<^verbatim>\<open>applyMove\<close> does not fail: it returns a new 8 by 8 board
  with the colour at that cell (for an empty cell, the input board with only that cell
  changed), and the call does not mutate the input board, which has its old value after
  the call. Rejecting an illegal move is left to the caller.
\<close>

theorem applyMove_accepts_illegal:
  assumes "gridAt h a = Some g" "wfGrid g" "inGrid r0 c0"
    and "getValidMoves g (Some me) = Some ms" "\<lparr>row = r0, col = c0\<rparr> \<notin> set ms"
  shows "\<exists>nb h' g'.
           applyMoveH h a (Some me) r0 c0 = Some (nb, h') \<and>
           gridAt h' nb = Some g' \<and> applyMove g (Some me) r0 c0 = Some g' \<and>
           wfGrid g' \<and> cellAt g' r0 c0 = Some me \<and>
           (cellAt g r0 c0 = None \<longrightarrow> g' = g[nat r0 := (g ! nat r0)[nat c0 := Some me]]) \<and>
           gridAt h' a = Some g"
proof -
  from assms(4,5) have nl: "\<not> legalDestination g me r0 c0"
    using mem_allCells[of r0 c0] assms(3)
    by (auto simp: getValidMoves_filter[OF assms(2)])
  from applyMove_total[OF assms(2,3), of "Some me"] obtain g' where
    g': "applyMove g (Some me) r0 c0 = Some g'" "wfGrid g'" "cellAt g' r0 c0 = Some me"
    by blast
  from applyMoveH_sim[OF assms(1), of "Some me" r0 c0] g'(1)
  obtain nb h' where 1: "applyMoveH h a (Some me) r0 c0 = Some (nb, h')"
    "gridAt h' nb = Some g'" "take (length h) h' = h"
    by (auto simp: option_rel_Some2)
  have "g' = g[nat r0 := (g ! nat r0)[nat c0 := Some me]]" if "cellAt g r0 c0 = None"
    using applyMove_not_legal[OF assms(2,3) that nl] g'(1) by simp
  with 1 g' gridAt_prefix[OF assms(1) 1(3)] show ?thesis
    by (intro exI[of _ nb] exI[of _ h'] exI[of _ g']) simp
qed

theorem applyMove_accepts_illegal_witness:
  "gridAt heapA 8 = Some createInitialBoard \<and> wfGrid createInitialBoard \<and> inGrid 0 0 \<and>
   \<lparr>row = 0, col = 0\<rparr> \<notin> set [\<lparr>row = 2, col = 3\<rparr>, \<lparr>row = 3, col = 2\<rparr>, \<lparr>row = 4, col = 5\<rparr>, \<lparr>row = 5, col = 4\<rparr>] \<and>
   (\<exists>nb h'. applyMoveH heapA 8 (Some Black) 0 0 = Some (nb, h') \<and>
      gridAt h' nb = Some (createInitialBoard[0 := Some Black # replicate 7 None]) \<and>
      gridAt h' 8 = Some createInitialBoard)"
proof -
  have a: "gridAt heapA 8 = Some createInitialBoard" by code_simp
  have g: "inGrid 0 0" by (simp add: inGrid_def BOARD_SIZE_def)
  have ms: "getValidMoves createInitialBoard (Some Black)
     = Some [\<lparr>row = 2, col = 3\<rparr>, \<lparr>row = 3, col = 2\<rparr>, \<lparr>row = 4, col = 5\<rparr>, \<lparr>row = 5, col = 4\<rparr>]"
    by code_simp
  have n: "\<lparr>row = 0, col = 0\<rparr> \<notin> set [\<lparr>row = 2, col = 3\<rparr>, \<lparr>row = 3, col = 2\<rparr>, \<lparr>row = 4, col = 5\<rparr>, \<lparr>row = 5, col = 4\<rparr>]"
    by simp
  have e: "cellAt createInitialBoard 0 0 = None"
    "createInitialBoard[nat 0 := (createInitialBoard ! nat 0)[nat 0 := Some Black]]
      = createInitialBoard[0 := Some Black # replicate 7 None]"
    by code_simp+
  from applyMove_accepts_illegal[OF a wfGrid_createInitialBoard g ms n] e a g n
    wfGrid_createInitialBoard
  show ?thesis by auto
qed

section \<open>The evaluator term by term\<close>

lemma opponentOf_Some [simp]: "opponentOf (Some me) = Some (opposite me)"
  by (cases me) (simp_all add: opponentOf_def)

lemma rdNum_wf: "wfGrid w \<Longrightarrow> inGrid r c \<Longrightarrow> rdNum w r c = Some (cellAt w r c)"
  by (simp add: rdNum_def rd_wf)

lemma cornerScore_sum:
  assumes "wfGrid b" "\<forall>p \<in> set ps. inGrid (row p) (col p)"
  shows "cornerScore b x y ps sc
         = Some (sc + sum_list (map (\<lambda>p. if cellAt b (row p) (col p) = x then 2000
                                           else if cellAt b (row p) (col p) = y then - 2000
                                           else 0) ps))"
  using assms(2)
  by (induction ps arbitrary: sc) (auto simp: rd_wf[OF assms(1)])

lemma positional_sum:
  assumes "wfGrid b" "wfGrid w" "\<forall>p \<in> set ps. inGrid (row p) (col p)"
  shows "positional b x y w ps sc
         = Some (sc + sum_list (map (\<lambda>p. if cellAt b (row p) (col p) = x then cellAt w (row p) (col p)
                                           else if cellAt b (row p) (col p) = y
                                             then - cellAt w (row p) (col p)
                                           else 0) ps))"
  using assms(3)
  by (induction ps arbitrary: sc) (auto simp: rd_wf[OF assms(1)] rdNum_wf[OF assms(2)])

lemma corners_inGrid: "\<forall>p \<in> set corners. inGrid (row p) (col p)"
  by (simp add: corners_def inGrid_def BOARD_SIZE_def)

lemma allCells_inGrid: "\<forall>p \<in> set allCells. inGrid (row p) (col p)"
  by (simp add: set_allCells)

lemma evaluateBoard_terms:
  assumes "wfGrid b" "wfGrid w" "diskCount b None \<noteq> 0"
  shows "evaluateBoard b (Some me) w
         = Some (cornerTerm b me + mobilityTerm b me + positionTerm b me w)"
  using assms(3)
  unfolding evaluateBoard_def cornerTerm_def mobilityTerm_def positionTerm_def
  by (simp add: countPhase_allCells[OF assms(1)] cornerScore_sum[OF assms(1) corners_inGrid]
      getValidMoves_filter[OF assms(1)] positional_sum[OF assms(1,2) allCells_inGrid] Let_def)

lemma evaluateBoard_total:
  assumes "wfGrid b" "wfGrid w"
  shows "\<exists>v. evaluateBoard b (Some me) w = Some v"
proof (cases "diskCount b None = 0")
  case True
  then show ?thesis
    unfolding evaluateBoard_def by (simp add: countPhase_allCells[OF assms(1)])
next
  case False
  from evaluateBoard_terms[OF assms False] show ?thesis by blast
qed

section \<open>The search returns a finite score on well-formed inputs\<close>

lemma max_Fin: "(maxEval = NegInf \<or> (\<exists>u. maxEval = Fin u)) \<Longrightarrow> \<exists>u. max maxEval (Fin v) = Fin u"
  by (auto simp: max_def)

lemma min_Fin: "(minEval = PosInf \<or> (\<exists>u. minEval = Fin u)) \<Longrightarrow> \<exists>u. min minEval (Fin v) = Fin u"
  by (auto simp: min_def)

lemma weightsOf_wf:
  assumes "wfGrid w" "\<forall>m \<in> set ms. inGrid (row m) (col m)"
  shows "weightsOf w ms = Some (map (\<lambda>m. cellAt w (row m) (col m)) ms)"
  using assms(2) by (induction ms) (simp_all add: rdNum_wf[OF assms(1)])

lemma orderMoves_wf:
  assumes "wfGrid w" "\<forall>m \<in> set ms. inGrid (row m) (col m)"
  shows "\<exists>ms'. orderMoves w ms = Some ms' \<and> set ms' = set ms \<and> length ms' = length ms"
proof (cases "length ms < 2")
  case True
  then show ?thesis by (simp add: orderMoves_def)
next
  case False
  let ?ks = "map (\<lambda>m. cellAt w (row m) (col m)) ms"
  have z: "map snd (zip ?ks ms) = ms"
    by (rule map_snd_zip) simp
  have "set (map snd (sort_key (\<lambda>km. - fst km) (zip ?ks ms))) = snd ` set (zip ?ks ms)"
    by simp
  also have "\<dots> = set (map snd (zip ?ks ms))" by (simp only: set_map)
  also have "\<dots> = set ms" by (simp only: z)
  finally show ?thesis
    using False by (simp add: orderMoves_def weightsOf_wf[OF assms])
qed

lemma getValidMoves_inGrid:
  assumes "wfGrid b"
  shows "\<exists>ms. getValidMoves b (Some me) = Some ms \<and> (\<forall>m \<in> set ms. inGrid (row m) (col m))"
  by (simp add: getValidMoves_filter[OF assms] set_allCells)

lemma maxLoop_fin:
  assumes mm: "\<And>b' alpha' beta'. wfGrid b' \<Longrightarrow>
                  \<exists>v. minimax b' depth alpha' beta' False (Some me) w = Some (Fin v)"
    and "wfGrid b" "\<forall>m \<in> set ms. inGrid (row m) (col m)"
    and "maxEval = NegInf \<and> ms \<noteq> [] \<or> (\<exists>u. maxEval = Fin u)"
  shows "\<exists>v. maxLoop b depth alpha beta (Some me) w ms maxEval = Some (Fin v)"
  using assms(3,4)
proof (induction ms arbitrary: alpha maxEval)
  case Nil
  then show ?case by (auto simp: minimax.simps)
next
  case (Cons mv rest)
  from Cons.prems(1) have g: "inGrid (row mv) (col mv)" by simp
  from applyMove_total[OF assms(2) g, of "Some me"] obtain nb where
    nb: "applyMove b (Some me) (row mv) (col mv) = Some nb" "wfGrid nb" by blast
  from mm[OF nb(2), of alpha beta] obtain v where
    v: "minimax nb depth alpha beta False (Some me) w = Some (Fin v)" by blast
  from Cons.prems(2) obtain u where u: "max maxEval (Fin v) = Fin u"
    using max_Fin[of maxEval v] by blast
  have "\<exists>v'. maxLoop b depth (max alpha (Fin v)) beta (Some me) w rest (Fin u) = Some (Fin v')"
    using Cons.IH[of "Fin u" "max alpha (Fin v)"] Cons.prems(1) by simp
  then show ?case
    by (auto simp: minimax.simps nb(1) v u Let_def)
qed

lemma minLoop_fin:
  assumes mm: "\<And>b' alpha' beta'. wfGrid b' \<Longrightarrow>
                  \<exists>v. minimax b' depth alpha' beta' True (Some me) w = Some (Fin v)"
    and "wfGrid b" "\<forall>m \<in> set ms. inGrid (row m) (col m)"
    and "minEval = PosInf \<and> ms \<noteq> [] \<or> (\<exists>u. minEval = Fin u)"
  shows "\<exists>v. minLoop b depth alpha beta (Some me) w ms minEval = Some (Fin v)"
  using assms(3,4)
proof (induction ms arbitrary: beta minEval)
  case Nil
  then show ?case by (auto simp: minimax.simps)
next
  case (Cons mv rest)
  from Cons.prems(1) have g: "inGrid (row mv) (col mv)" by simp
  from applyMove_total[OF assms(2) g, of "Some (opposite me)"] obtain nb where
    nb: "applyMove b (Some (opposite me)) (row mv) (col mv) = Some nb" "wfGrid nb" by blast
  from mm[OF nb(2), of alpha beta] obtain v where
    v: "minimax nb depth alpha beta True (Some me) w = Some (Fin v)" by blast
  from Cons.prems(2) obtain u where u: "min minEval (Fin v) = Fin u"
    using min_Fin[of minEval v] by blast
  have "\<exists>v'. minLoop b depth alpha (min beta (Fin v)) (Some me) w rest (Fin u) = Some (Fin v')"
    using Cons.IH[of "Fin u" "min beta (Fin v)"] Cons.prems(1) by simp
  then show ?case
    by (auto simp: minimax.simps nb(1) v u Let_def)
qed

lemma minimax_fin:
  assumes "wfGrid w" "wfGrid b"
  shows "\<exists>v. minimax b depth alpha beta mp (Some me) w = Some (Fin v)"
  using assms(2)
proof (induction depth arbitrary: b alpha beta mp)
  case 0
  from evaluateBoard_total[OF 0 assms(1), of me] show ?case
    by (auto simp: minimax.simps)
next
  case (Suc depth)
  let ?cur = "if mp then Some me else Some (opposite me)"
  let ?oth = "if mp then Some (opposite me) else Some me"
  from getValidMoves_inGrid[OF Suc.prems] obtain vm where
    vm: "getValidMoves b ?cur = Some vm" "\<forall>m \<in> set vm. inGrid (row m) (col m)"
    by (cases mp) auto
  from getValidMoves_inGrid[OF Suc.prems] obtain om where
    om: "getValidMoves b ?oth = Some om"
    by (cases mp) auto
  show ?case
  proof (cases "vm = []")
    case True
    show ?thesis
    proof (cases "om = []")
      case True
      with \<open>vm = []\<close> vm om show ?thesis
        by (simp add: minimax.simps Let_def)
    next
      case False
      with \<open>vm = []\<close> vm om Suc.IH[OF Suc.prems, of alpha beta "\<not> mp"] show ?thesis
        by (simp add: minimax.simps Let_def)
    qed
  next
    case False
    from orderMoves_wf[OF assms(1) vm(2)] obtain sorted where
      s: "orderMoves w vm = Some sorted" "set sorted = set vm" "length sorted = length vm"
      by blast
    with vm(2) False have sg: "\<forall>m \<in> set sorted. inGrid (row m) (col m)" "sorted \<noteq> []"
      by auto
    have "\<exists>v. maxLoop b depth alpha beta (Some me) w sorted NegInf = Some (Fin v)"
      by (rule maxLoop_fin[OF Suc.IH Suc.prems sg(1)]) (simp_all add: sg(2))
    moreover have "\<exists>v. minLoop b depth alpha beta (Some me) w sorted PosInf = Some (Fin v)"
      by (rule minLoop_fin[OF Suc.IH Suc.prems sg(1)]) (simp_all add: sg(2))
    ultimately show ?thesis
      using False vm s(1) by (simp add: minimax.simps Let_def)
  qed
qed

section \<open>Move selection\<close>

lemma riskyCorners_total:
  assumes "wfGrid b" "\<forall>p \<in> set ps. inGrid (row p) (col p)"
  shows "\<exists>r. riskyCorners b r0 c0 ps = Some r"
  using assms(2) by (induction ps) (auto simp: rd_wf[OF assms(1)] Let_def)

lemma isRiskyMove_total:
  assumes "wfGrid b"
  shows "\<exists>r. isRiskyMove b r0 c0 = Some r"
  using riskyCorners_total[OF assms corners_inGrid, of r0 c0] by (auto simp: isRiskyMove_def)

lemma safeMovesOf_total:
  assumes "wfGrid b"
  shows "\<exists>sm. safeMovesOf b ms = Some sm \<and> set sm \<subseteq> set ms"
proof (induction ms)
  case Nil
  then show ?case by simp
next
  case (Cons m ms)
  from isRiskyMove_total[OF assms, of "row m" "col m"] obtain r where
    "isRiskyMove b (row m) (col m) = Some r" by blast
  with Cons show ?case by auto
qed

lemma rootCandidates_total:
  assumes "wfGrid b" "validMoves \<noteq> []"
  shows "\<exists>cands. rootCandidates b validMoves = Some cands \<and> cands \<noteq> [] \<and>
                 set cands \<subseteq> set validMoves"
  using safeMovesOf_total[OF assms(1), of validMoves] assms(2)
  by (auto simp: rootCandidates_def)

lemma rootScore_fin:
  assumes "wfGrid b" "wfGrid w" "inGrid (row mv) (col mv)"
  shows "\<exists>v. rootScore b (Some me) depth w mv = Some (Fin v)"
proof -
  from applyMove_total[OF assms(1,3), of "Some me"] obtain nb where
    nb: "applyMove b (Some me) (row mv) (col mv) = Some nb" "wfGrid nb" by blast
  from minimax_fin[OF assms(2) nb(2)] nb(1) show ?thesis
    by (simp add: rootScore_def)
qed

lemma rootLoop_step:
  "rootLoop b aiColor depth w rnd (mv # rest) (bestMove, maxScore, k) =
     do { sc \<leftarrow> rootScore b aiColor depth w mv;
          rootLoop b aiColor depth w rnd rest
            (if sc > maxScore then (mv, sc, k)
             else if sc = maxScore then ((if rnd k > 0.5 then mv else bestMove), maxScore, k + 1)
             else (bestMove, maxScore, k)) }"
  by (simp add: rootScore_def)

text \<open>
  The invariant of the root loop: the running maximum bounds the scores seen, and the
  running best move either is the one the loop started with (and the maximum has not
  moved) or is a move of the list whose score is the maximum.
\<close>

lemma rootLoop_inv:
  assumes "\<forall>m \<in> set ms. \<exists>v. rootScore b aiColor depth w m = Some (Fin v)"
  shows "\<exists>best' mx' k'.
           rootLoop b aiColor depth w rnd ms (best, mx, k) = Some (best', mx', k') \<and>
           mx \<le> mx' \<and>
           (\<forall>m \<in> set ms. \<exists>s. rootScore b aiColor depth w m = Some s \<and> s \<le> mx') \<and>
           (best' = best \<and> mx' = mx \<or>
            best' \<in> set ms \<and> rootScore b aiColor depth w best' = Some mx')"
  using assms
proof (induction ms arbitrary: best mx k)
  case Nil
  then show ?case by simp
next
  case (Cons mv rest)
  from Cons.prems obtain v where v: "rootScore b aiColor depth w mv = Some (Fin v)" by auto
  from Cons.prems have rest: "\<forall>m \<in> set rest. \<exists>v. rootScore b aiColor depth w m = Some (Fin v)"
    by simp
  let ?st = "if Fin v > mx then (mv, Fin v, k)
             else if Fin v = mx then ((if rnd k > 0.5 then mv else best), mx, k + 1)
             else (best, mx, k)"
  obtain b1 m1 k1 where st: "?st = (b1, m1, k1)" by (cases ?st) auto
  have m1: "mx \<le> m1" "Fin v \<le> m1"
    and b1: "b1 = best \<and> m1 = mx \<or> b1 = mv \<and> Fin v = m1"
    using st by (auto split: if_splits)
  from Cons.IH[OF rest, of b1 m1 k1] obtain best' mx' k' where
    r: "rootLoop b aiColor depth w rnd rest (b1, m1, k1) = Some (best', mx', k')"
       "m1 \<le> mx'"
       "\<forall>m \<in> set rest. \<exists>s. rootScore b aiColor depth w m = Some s \<and> s \<le> mx'"
       "best' = b1 \<and> mx' = m1 \<or> best' \<in> set rest \<and> rootScore b aiColor depth w best' = Some mx'"
    by blast
  have "rootLoop b aiColor depth w rnd (mv # rest) (best, mx, k) = Some (best', mx', k')"
    unfolding rootLoop_step using v st r(1) by simp
  moreover have "mx \<le> mx'" using m1(1) r(2) by simp
  moreover have "\<forall>m \<in> set (mv # rest). \<exists>s. rootScore b aiColor depth w m = Some s \<and> s \<le> mx'"
    using r(3) v m1(2) r(2) by auto
  moreover have "best' = best \<and> mx' = mx \<or>
            best' \<in> set (mv # rest) \<and> rootScore b aiColor depth w best' = Some mx'"
    using r(4) b1 v by auto
  ultimately show ?case by blast
qed

lemma getBestMove_search:
  assumes "memoryMove data (getBoardHash b) (first # rest) = None"
    and "inferColor b first = Some ai" "rootCandidates b (first # rest) = Some cands"
  shows "getBestMove b (first # rest) data rnd
         = map_option fst (rootLoop b ai (searchDepth b) (weights data) rnd cands (first, NegInf, 0))"
proof -
  from assms(2) obtain tb where tb: "getValidMoves b (Some Black) = Some tb"
    "ai = (if \<exists>m \<in> set tb. row m = row first \<and> col m = col first then Some Black else Some White)"
    by (auto simp: inferColor_def split: bind_splits)
  from assms(3) obtain sm where sm: "safeMovesOf b (first # rest) = Some sm"
    "cands = (if length sm > 0 \<and> searchDepth b < 10 then sm else first # rest)"
    by (auto simp: rootCandidates_def split: bind_splits)
  show ?thesis
  proof (cases "rootLoop b ai (searchDepth b) (weights data) rnd cands (first, NegInf, 0)")
    case None
    then show ?thesis
      unfolding getBestMove_def using assms(1) tb sm
      by (simp add: Let_def)
  next
    case (Some r)
    then show ?thesis
      unfolding getBestMove_def using assms(1) tb sm
      by (cases r) (simp add: Let_def)
  qed
qed

lemma getBestMove_memory:
  assumes "memoryMove data (getBoardHash b) (first # rest) = Some mm"
    and "inferColor b first = Some ai"
  shows "getBestMove b (first # rest) data rnd = Some mm"
proof -
  from assms(2) obtain tb where tb: "getValidMoves b (Some Black) = Some tb"
    by (auto simp: inferColor_def split: bind_splits)
  show ?thesis
    unfolding getBestMove_def using assms(1) tb by (simp add: Let_def)
qed

lemma inferColor_total:
  assumes "wfGrid b"
  shows "inferColor b first = Some (Some Black) \<or> inferColor b first = Some (Some White)"
  by (simp add: inferColor_def getValidMoves_filter[OF assms])

lemma memoryMove_valid:
  assumes "memoryMove data hash validMoves = Some mm"
  shows "mm \<in> set validMoves"
proof -
  from assms obtain e where e: "map_of (memory data) hash = Some e"
    by (auto simp: memoryMove_def split: option.splits)
  with assms obtain m where m: "m \<in> set validMoves" "row m = row e" "col m = col e"
    and mm: "mm = \<lparr>row = row e, col = col e\<rparr>"
    by (auto simp: memoryMove_def split: if_splits)
  from m(2,3) mm have "m = mm" by (cases m) simp
  with m(1) show ?thesis by simp
qed

lemma search_selects_max:
  assumes "wfGrid b" "wfGrid w" "cands \<noteq> []" "\<forall>m \<in> set cands. inGrid (row m) (col m)"
  shows "\<exists>best mx k.
           rootLoop b (Some me) depth w rnd cands (first, NegInf, 0) = Some (best, mx, k) \<and>
           best \<in> set cands \<and> rootScore b (Some me) depth w best = Some mx \<and>
           (\<forall>m \<in> set cands. \<exists>s. rootScore b (Some me) depth w m = Some s \<and> s \<le> mx)"
proof -
  have fin: "\<forall>m \<in> set cands. \<exists>v. rootScore b (Some me) depth w m = Some (Fin v)"
    using rootScore_fin[OF assms(1,2)] assms(4) by blast
  from rootLoop_inv[OF fin, of rnd first NegInf 0] obtain best mx k where
    r: "rootLoop b (Some me) depth w rnd cands (first, NegInf, 0) = Some (best, mx, k)"
       "\<forall>m \<in> set cands. \<exists>s. rootScore b (Some me) depth w m = Some s \<and> s \<le> mx"
       "best = first \<and> mx = NegInf \<or>
        best \<in> set cands \<and> rootScore b (Some me) depth w best = Some mx"
    by blast
  from assms(3) obtain c where c: "c \<in> set cands" by (cases cands) auto
  with fin r(2) obtain v where "Fin v \<le> mx" by fastforce
  then have "mx \<noteq> NegInf" by auto
  with r show ?thesis by blast
qed

text \<open>
  Claim C10. On an 8 by 8 board with an 8 by 8 weight matrix, for every non-empty list
  \<^verbatim>\<open>validMoves\<close> of cells of the grid, \<^verbatim>\<open>getBestMove\<close> returns an element of
  \<^verbatim>\<open>validMoves\<close>: the remembered move when the memory answers (it is checked against
  \<^verbatim>\<open>validMoves\<close>), and otherwise a move of the candidate list, which is \<^verbatim>\<open>validMoves\<close>
  or its risk-filtered part.
\<close>

theorem getBestMove_in_validMoves:
  assumes "wfGrid b" "wfGrid (weights data)" "validMoves \<noteq> []"
    and "\<forall>m \<in> set validMoves. inGrid (row m) (col m)"
  shows "\<exists>m. getBestMove b validMoves data rnd = Some m \<and> m \<in> set validMoves \<and>
             (case memoryMove data (getBoardHash b) validMoves of
                Some mm \<Rightarrow> m = mm
              | None \<Rightarrow> \<exists>cands. rootCandidates b validMoves = Some cands \<and>
                          set cands \<subseteq> set validMoves \<and> m \<in> set cands)"
proof -
  from assms(3) obtain first rest where vm: "validMoves = first # rest"
    by (cases validMoves) auto
  from inferColor_total[OF assms(1), of first] obtain me where
    ai: "inferColor b first = Some (Some me)" by blast
  show ?thesis
  proof (cases "memoryMove data (getBoardHash b) validMoves")
    case (Some mm)
    with getBestMove_memory[of data b first rest mm "Some me" rnd] ai memoryMove_valid[OF Some]
    show ?thesis by (simp add: vm)
  next
    case None
    from rootCandidates_total[OF assms(1,3)] obtain cands where
      c: "rootCandidates b validMoves = Some cands" "cands \<noteq> []" "set cands \<subseteq> set validMoves"
      by blast
    with assms(4) have cg: "\<forall>m \<in> set cands. inGrid (row m) (col m)" by blast
    from search_selects_max[OF assms(1,2) c(2) cg, of me "searchDepth b" rnd first]
    obtain best mx k where
      r: "rootLoop b (Some me) (searchDepth b) (weights data) rnd cands (first, NegInf, 0)
          = Some (best, mx, k)" "best \<in> set cands"
      by blast
    from getBestMove_search[of data b first rest "Some me" cands rnd] None ai c(1) r(1)
    have "getBestMove b validMoves data rnd = Some best" by (simp add: vm)
    with r(2) c None show ?thesis by auto
  qed
qed

theorem getBestMove_in_validMoves_witness:
  "wfGrid tieBoard3 \<and> wfGrid (weights INITIAL_DATA) \<and> tieMoves3 \<noteq> [] \<and>
   getBestMove tieBoard3 tieMoves3 INITIAL_DATA (drawsOf []) = Some \<lparr>row = 2, col = 2\<rparr> \<and>
   \<lparr>row = 2, col = 2\<rparr> \<in> set tieMoves3"
proof -
  have 1: "wfGrid tieBoard3" "wfGrid (weights INITIAL_DATA)" by code_simp+
  have 2: "tieMoves3 \<noteq> []" "\<forall>m \<in> set tieMoves3. inGrid (row m) (col m)"
    by (simp_all add: tieMoves3_def inGrid_def BOARD_SIZE_def)
  have 3: "getBestMove tieBoard3 tieMoves3 INITIAL_DATA (drawsOf []) = Some \<lparr>row = 2, col = 2\<rparr>"
    by code_simp
  from getBestMove_in_validMoves[OF 1 2, of "drawsOf []"] 1 2 3 show ?thesis by auto
qed

text \<open>
  Claim C4, as stated, fails in its first half: the choice among the candidates of
  maximal score is not uniform. A later candidate that ties the maximum replaces the
  current choice when its draw exceeds 0.5. In \<open>tieBoard3\<close> the three candidates have
  the same score 500000, the loop takes two draws, and of the four equally likely
  outcomes of the two tests one selects the first candidate, one the second and two the
  third.
\<close>

theorem tie_break_counterexample:
  "map (rootScore tieBoard3 (Some Black) (searchDepth tieBoard3) INITIAL_WEIGHTS) tieMoves3
     = [Some (Fin 500000), Some (Fin 500000), Some (Fin 500000)] \<and>
   getBestMove tieBoard3 tieMoves3 INITIAL_DATA (drawsOf [False, False]) = Some \<lparr>row = 2, col = 2\<rparr> \<and>
   getBestMove tieBoard3 tieMoves3 INITIAL_DATA (drawsOf [True, False]) = Some \<lparr>row = 2, col = 3\<rparr> \<and>
   getBestMove tieBoard3 tieMoves3 INITIAL_DATA (drawsOf [False, True]) = Some \<lparr>row = 3, col = 2\<rparr> \<and>
   getBestMove tieBoard3 tieMoves3 INITIAL_DATA (drawsOf [True, True]) = Some \<lparr>row = 3, col = 2\<rparr>"
  by code_simp

text \<open>
  Claim C4, amended. At the root, when no remembered move is used, \<^verbatim>\<open>getBestMove\<close> returns
  for every outcome of the random draws a candidate move whose final search score equals
  the maximum score found over the candidates; it never returns a candidate of strictly
  lower score. Among several candidates of maximal score the draws decide, not uniformly.
\<close>

theorem root_selects_maximum:
  assumes "wfGrid b" "wfGrid (weights data)" "validMoves \<noteq> []"
    and "\<forall>m \<in> set validMoves. inGrid (row m) (col m)"
    and "memoryMove data (getBoardHash b) validMoves = None"
  shows "\<exists>ai cands best mx.
           inferColor b (hd validMoves) = Some ai \<and> rootCandidates b validMoves = Some cands \<and>
           getBestMove b validMoves data rnd = Some best \<and> best \<in> set cands \<and>
           rootScore b ai (searchDepth b) (weights data) best = Some mx \<and>
           (\<forall>m \<in> set cands. \<exists>s. rootScore b ai (searchDepth b) (weights data) m = Some s \<and> s \<le> mx)"
proof -
  from assms(3) obtain first rest where vm: "validMoves = first # rest"
    by (cases validMoves) auto
  from inferColor_total[OF assms(1), of first] obtain me where
    ai: "inferColor b first = Some (Some me)" by blast
  from rootCandidates_total[OF assms(1,3)] obtain cands where
    c: "rootCandidates b validMoves = Some cands" "cands \<noteq> []" "set cands \<subseteq> set validMoves"
    by blast
  with assms(4) have cg: "\<forall>m \<in> set cands. inGrid (row m) (col m)" by blast
  from search_selects_max[OF assms(1,2) c(2) cg, of me "searchDepth b" rnd first]
  obtain best mx k where
    r: "rootLoop b (Some me) (searchDepth b) (weights data) rnd cands (first, NegInf, 0)
        = Some (best, mx, k)" "best \<in> set cands"
       "rootScore b (Some me) (searchDepth b) (weights data) best = Some mx"
       "\<forall>m \<in> set cands. \<exists>s. rootScore b (Some me) (searchDepth b) (weights data) m = Some s \<and> s \<le> mx"
    by blast
  from getBestMove_search[of data b first rest "Some me" cands rnd] assms(5) ai c(1) r(1)
  have "getBestMove b validMoves data rnd = Some best" by (simp add: vm)
  with ai c(1) r(2,3,4) show ?thesis unfolding vm by (intro exI[of _ "Some me"] exI[of _ cands] exI[of _ best] exI[of _ mx]) simp
qed

theorem root_selects_maximum_witness:
  "wfGrid tieBoard2 \<and> wfGrid (weights INITIAL_DATA) \<and> tieMoves2 \<noteq> [] \<and>
   memoryMove INITIAL_DATA (getBoardHash tieBoard2) tieMoves2 = None \<and>
   map (rootScore tieBoard2 (Some Black) (searchDepth tieBoard2) (weights INITIAL_DATA)) tieMoves2
     = [Some (Fin 700000), Some (Fin 700000), Some (Fin (- 524))] \<and>
   (\<forall>rnd. getBestMove tieBoard2 tieMoves2 INITIAL_DATA rnd = Some \<lparr>row = 2, col = 3\<rparr> \<or>
          getBestMove tieBoard2 tieMoves2 INITIAL_DATA rnd = Some \<lparr>row = 3, col = 2\<rparr>)"
proof -
  have 1: "wfGrid tieBoard2" "wfGrid (weights INITIAL_DATA)" by code_simp+
  have 2: "tieMoves2 \<noteq> []" "\<forall>m \<in> set tieMoves2. inGrid (row m) (col m)"
    by (simp_all add: tieMoves2_def inGrid_def BOARD_SIZE_def)
  have 3: "memoryMove INITIAL_DATA (getBoardHash tieBoard2) tieMoves2 = None"
    by (simp add: memoryMove_def INITIAL_DATA_def)
  have ai: "inferColor tieBoard2 (hd tieMoves2) = Some (Some Black)" by code_simp
  have cands: "rootCandidates tieBoard2 tieMoves2 = Some tieMoves2" by code_simp
  have sc: "rootScore tieBoard2 (Some Black) (searchDepth tieBoard2) (weights INITIAL_DATA) \<lparr>row = 2, col = 3\<rparr> = Some (Fin 700000)"
    "rootScore tieBoard2 (Some Black) (searchDepth tieBoard2) (weights INITIAL_DATA) \<lparr>row = 3, col = 2\<rparr> = Some (Fin 700000)"
    "rootScore tieBoard2 (Some Black) (searchDepth tieBoard2) (weights INITIAL_DATA) \<lparr>row = 6, col = 5\<rparr> = Some (Fin (- 524))"
    by code_simp+
  have sel: "getBestMove tieBoard2 tieMoves2 INITIAL_DATA rnd = Some \<lparr>row = 2, col = 3\<rparr> \<or>
          getBestMove tieBoard2 tieMoves2 INITIAL_DATA rnd = Some \<lparr>row = 3, col = 2\<rparr>" for rnd
  proof -
    from root_selects_maximum[OF 1 2 3, of rnd] ai cands obtain best mx where
      b: "getBestMove tieBoard2 tieMoves2 INITIAL_DATA rnd = Some best" "best \<in> set tieMoves2"
         "rootScore tieBoard2 (Some Black) (searchDepth tieBoard2) (weights INITIAL_DATA) best = Some mx"
         "\<forall>m \<in> set tieMoves2. \<exists>s. rootScore tieBoard2 (Some Black) (searchDepth tieBoard2) (weights INITIAL_DATA) m = Some s \<and> s \<le> mx"
      by auto
    from b(4) sc(1) have "Fin 700000 \<le> mx" by (auto simp: tieMoves2_def)
    with b(3) sc(3) have "best \<noteq> \<lparr>row = 6, col = 5\<rparr>" by auto
    with b(1,2) show ?thesis by (auto simp: tieMoves2_def)
  qed
  from 1 2 3 sc sel show ?thesis by (simp add: tieMoves2_def)
qed

section \<open>Memory eviction\<close>

lemma entryCmp_rankedBefore: "entryCmp a b \<le> 0 \<longleftrightarrow> rankedBefore a b"
  by (auto simp: entryCmp_def rankedBefore_def)

lemma rankedBefore_total: "rankedBefore a b \<or> rankedBefore b a"
  by (auto simp: rankedBefore_def)

lemma rankedBefore_trans: "rankedBefore a b \<Longrightarrow> rankedBefore b c \<Longrightarrow> rankedBefore a c"
  by (auto simp: rankedBefore_def)

lemma mset_insertBy: "mset (insertBy cmp x ys) = add_mset x (mset ys)"
  by (induction ys) simp_all

lemma mset_sortBy: "mset (sortBy cmp xs) = mset xs"
  by (induction xs) (simp_all add: sortBy_def mset_insertBy)

lemma set_insertBy: "set (insertBy cmp x ys) = insert x (set ys)"
  by (induction ys) auto

lemma length_sortBy: "length (sortBy cmp xs) = length xs"
  using mset_sortBy[of cmp xs] by (metis size_mset)

lemma sorted_insertBy:
  assumes "sorted_wrt rankedBefore ys"
  shows "sorted_wrt rankedBefore (insertBy entryCmp x ys)"
  using assms
proof (induction ys)
  case Nil
  then show ?case by simp
next
  case (Cons y ys)
  show ?case
  proof (cases "rankedBefore x y")
    case True
    with Cons.prems show ?thesis
      by (auto simp: entryCmp_rankedBefore intro: rankedBefore_trans)
  next
    case False
    then have "rankedBefore y x" using rankedBefore_total by blast
    with False Cons show ?thesis
      by (auto simp: entryCmp_rankedBefore set_insertBy)
  qed
qed

lemma sorted_sortBy: "sorted_wrt rankedBefore (sortBy entryCmp xs)"
  by (induction xs) (simp_all add: sortBy_def sorted_insertBy)

lemma keepsTop_take: "keepsTop k old (take k (sortBy entryCmp old))"
proof -
  let ?s = "sortBy entryCmp old"
  have s: "?s = take k ?s @ drop k ?s" by simp
  have "sorted_wrt rankedBefore (take k ?s @ drop k ?s)"
    using sorted_sortBy[of old] by simp
  then have "sorted_wrt rankedBefore (take k ?s)"
    and "\<forall>a \<in> set (take k ?s). \<forall>b \<in> set (drop k ?s). rankedBefore a b"
    unfolding sorted_wrt_append by simp_all
  moreover have "mset old = mset (take k ?s) + mset (drop k ?s)"
    using mset_sortBy[of entryCmp old] by (metis s mset_append)
  moreover have "length (take k ?s) = min k (length old)"
    by (simp add: length_sortBy min.commute)
  ultimately show ?thesis
    unfolding keepsTop_def by blast
qed

lemma saveBrain_prunes:
  assumes "int (length (memory data)) > limitOf data"
  shows "memory (saveBrain data)
         = take (nat \<lfloor>real_of_int (limitOf data) * 0.9\<rfloor>) (sortBy entryCmp (memory data))"
proof -
  let ?keep = "\<lfloor>real_of_int (limitOf data) * 0.9\<rfloor>"
  let ?s = "sortBy entryCmp (memory data)"
  have "take (nat (min (int (length ?s)) ?keep)) ?s = take (nat ?keep) ?s"
    by (cases "int (length ?s) \<le> ?keep") (simp_all add: min_def)
  with assms show ?thesis
    by (simp add: saveBrain_def Let_def)
qed

lemma saveBrain_keeps:
  assumes "int (length (memory data)) \<le> limitOf data"
  shows "saveBrain data = data"
  using assms by (simp add: saveBrain_def Let_def)

lemma saveBrainIDB_prunes:
  assumes "real (length (memory data)) > real_of_int (limitOf data) * 1.1"
  shows "memory (saveBrainIDB data) = take (nat (limitOf data)) (sortBy entryCmp (memory data))"
proof -
  have "real_of_int (limitOf data) < real (length (memory data))"
  proof (cases "limitOf data \<ge> 0")
    case True
    then have "real_of_int (limitOf data) \<le> real_of_int (limitOf data) * 1.1" by simp
    with assms show ?thesis by linarith
  next
    case False
    then have "real_of_int (limitOf data) < 0" by simp
    then show ?thesis by (smt (verit) of_nat_0_le_iff)
  qed
  then have "\<not> int (length (memory data)) \<le> limitOf data" by linarith
  with assms show ?thesis
    by (simp add: saveBrainIDB_def pruneMemory_def Let_def)
qed

lemma saveBrainIDB_keeps:
  assumes "real (length (memory data)) \<le> real_of_int (limitOf data) * 1.1"
  shows "saveBrainIDB data = data"
  using assms by (simp add: saveBrainIDB_def Let_def)

lemma snapshotOf_simps:
  "limitOf (snapshotOf n) = 100" "length (memory (snapshotOf n)) = n"
  by (simp_all add: snapshotOf_def limitOf_def memoryOf_def)

text \<open>
  Claim C2, as stated, fails for \<^verbatim>\<open>saveBrain\<close> of services/learningService.ts: it prunes
  as soon as the memory holds more entries than the capacity, with no margin (101 entries
  at capacity 100 are pruned), and it keeps \<^verbatim>\<open>Math.floor(maxLimit * 0.9)\<close> entries: of
  150 entries at capacity 100, 90 remain, not 100.
\<close>

theorem eviction_counterexample:
  "limitOf (snapshotOf 150) = 100 \<and> length (memory (snapshotOf 150)) = 150 \<and>
   length (memory (saveBrain (snapshotOf 150))) = 90 \<and>
   length (memory (snapshotOf 101)) = 101 \<and>
   length (memory (saveBrain (snapshotOf 101))) = 90"
proof -
  have "length (memory (saveBrain (snapshotOf n))) = 90" if "n > 100" for n
    using that saveBrain_prunes[of "snapshotOf n"]
    by (simp add: snapshotOf_simps length_sortBy)
  from this[of 150] this[of 101] show ?thesis by (simp add: snapshotOf_simps)
qed

text \<open>
  Claim C2, amended. Eviction runs at save time and differs between the two versions
  of the service. Both rank all entries by confidence descending, then timestamp
  descending, and keep the top-ranked ones in rank order, discarding the rest. The
  IndexedDB version (\<^verbatim>\<open>saveBrain\<close> with \<^verbatim>\<open>pruneMemory\<close>) prunes only once the memory
  holds more than 1.1 times the capacity, and keeps exactly the capacity: of 150 entries
  at capacity 100 the 100 highest-ranked remain. The localStorage version prunes once
  the memory holds more than the capacity and keeps the top
  \<open>\<lfloor>0.9 * capacity\<rfloor>\<close>: of 150 entries at capacity 100 the 90 highest-ranked remain.
  Below its threshold each version writes the memory unchanged.
\<close>

theorem eviction_by_version:
  "(real (length (memory data)) \<le> real_of_int (limitOf data) * 1.1 \<longrightarrow> saveBrainIDB data = data) \<and>
   (real (length (memory data)) > real_of_int (limitOf data) * 1.1 \<longrightarrow>
      keepsTop (nat (limitOf data)) (memory data) (memory (saveBrainIDB data)) \<and>
      int (length (memory (saveBrainIDB data))) = max 0 (limitOf data)) \<and>
   (int (length (memory data)) \<le> limitOf data \<longrightarrow> saveBrain data = data) \<and>
   (int (length (memory data)) > limitOf data \<longrightarrow>
      keepsTop (nat \<lfloor>real_of_int (limitOf data) * 0.9\<rfloor>) (memory data) (memory (saveBrain data)))"
proof (intro conjI impI)
  assume "real (length (memory data)) \<le> real_of_int (limitOf data) * 1.1"
  then show "saveBrainIDB data = data" by (rule saveBrainIDB_keeps)
next
  assume a: "real (length (memory data)) > real_of_int (limitOf data) * 1.1"
  show "keepsTop (nat (limitOf data)) (memory data) (memory (saveBrainIDB data))"
    unfolding saveBrainIDB_prunes[OF a] by (rule keepsTop_take)
  have "real_of_int (limitOf data) < real (length (memory data)) \<or> limitOf data < 0"
    using a by (cases "limitOf data \<ge> 0") auto
  then have "limitOf data < int (length (memory data))" by linarith
  then show "int (length (memory (saveBrainIDB data))) = max 0 (limitOf data)"
    unfolding saveBrainIDB_prunes[OF a] by (simp add: length_sortBy)
next
  assume "int (length (memory data)) \<le> limitOf data"
  then show "saveBrain data = data" by (rule saveBrain_keeps)
next
  assume a: "int (length (memory data)) > limitOf data"
  show "keepsTop (nat \<lfloor>real_of_int (limitOf data) * 0.9\<rfloor>) (memory data) (memory (saveBrain data))"
    unfolding saveBrain_prunes[OF a] by (rule keepsTop_take)
qed

theorem eviction_by_version_witness:
  "limitOf (snapshotOf 150) = 100 \<and> length (memory (snapshotOf 150)) = 150 \<and>
   keepsTop 100 (memory (snapshotOf 150)) (memory (saveBrainIDB (snapshotOf 150))) \<and>
   length (memory (saveBrainIDB (snapshotOf 150))) = 100 \<and>
   keepsTop 90 (memory (snapshotOf 150)) (memory (saveBrain (snapshotOf 150))) \<and>
   saveBrainIDB (snapshotOf 105) = snapshotOf 105 \<and>
   saveBrain (snapshotOf 100) = snapshotOf 100"
  using eviction_by_version[of "snapshotOf 150"] eviction_by_version[of "snapshotOf 105"]
    eviction_by_version[of "snapshotOf 100"]
  by (simp add: snapshotOf_simps)

section \<open>The weight adapter\<close>

lemma updateWeights_cells:
  assumes "wfGrid w" "\<forall>t \<in> set ts. inGrid (row (move t)) (col (move t))"
  shows "\<exists>w'. updateWeights w ts winner = Some w' \<and> wfGrid w' \<and>
           (\<forall>r c. inGrid r c \<longrightarrow>
              cellAt w' r c = cellAt w r c + 0.5 * real (winnerMovesAt ts winner r c)
                                         - 0.25 * real (loserMovesAt ts winner r c))"
  using assms
proof (induction ts arbitrary: w)
  case Nil
  then show ?case by (simp add: winnerMovesAt_def loserMovesAt_def)
next
  case (Cons t ts)
  let ?r = "row (move t)" and ?c = "col (move t)"
  let ?v = "if color t = winner then cellAt w ?r ?c + 0.5 else cellAt w ?r ?c - 0.25"
  let ?w1 = "w[nat ?r := (w ! nat ?r)[nat ?c := ?v]]"
  from Cons.prems have g: "inGrid ?r ?c" by simp
  have w1: "wfGrid ?w1" by (rule wfGrid_update[OF Cons.prems(1) g])
  from Cons.IH[OF w1] Cons.prems(2) obtain w' where
    w': "updateWeights ?w1 ts winner = Some w'" "wfGrid w'"
        "\<forall>r c. inGrid r c \<longrightarrow>
              cellAt w' r c = cellAt ?w1 r c + 0.5 * real (winnerMovesAt ts winner r c)
                                         - 0.25 * real (loserMovesAt ts winner r c)"
    by auto
  have "updateWeights w (t # ts) winner = Some w'"
    using w'(1) by (simp add: rdNum_wf[OF Cons.prems(1) g] wr_wf[OF Cons.prems(1) g])
  moreover have "cellAt w' r c = cellAt w r c + 0.5 * real (winnerMovesAt (t # ts) winner r c)
                                         - 0.25 * real (loserMovesAt (t # ts) winner r c)"
    if "inGrid r c" for r c
    using w'(3) that cellAt_update[OF Cons.prems(1) g that, of ?v]
    by (auto simp: winnerMovesAt_def loserMovesAt_def field_simps)
  ultimately show ?case using w'(2) by blast
qed

lemma clamp600_idem [simp]: "clamp600 (clamp600 x) = clamp600 x"
  by (simp add: clamp600_def)

lemma clamp600_range: "- 600 \<le> clamp600 x \<and> clamp600 x \<le> 600"
  by (simp add: clamp600_def)

lemma clampWeights_step:
  assumes "wfGrid w" "inGrid r c"
  shows "clampWeights w (\<lparr>row = r, col = c\<rparr> # ps)
         = clampWeights (w[nat r := (w ! nat r)[nat c := clamp600 (cellAt w r c)]]) ps"
proof -
  let ?x = "cellAt w r c"
  have same: "w[nat r := (w ! nat r)[nat c := ?x]] = w"
    by (simp add: cellAt_def)
  show ?thesis
  proof (cases "?x > 600")
    case True
    let ?w1 = "w[nat r := (w ! nat r)[nat c := 600]]"
    have "wfGrid ?w1" by (rule wfGrid_update[OF assms])
    moreover have "cellAt ?w1 r c = 600" using cellAt_update[OF assms assms(2), of 600] by simp
    ultimately show ?thesis using True
      by (simp add: rd_wf[OF assms] wr_wf[OF assms] rd_wf[OF _ assms(2)] clamp600_def)
  next
    case False
    show ?thesis
    proof (cases "?x < - 600")
      case True
      with False show ?thesis
        by (simp add: rd_wf[OF assms] wr_wf[OF assms] clamp600_def)
    next
      case nlow: False
      with False same show ?thesis
        by (simp add: rd_wf[OF assms] clamp600_def)
    qed
  qed
qed

lemma clampWeights_cells:
  assumes "wfGrid w" "\<forall>p \<in> set ps. inGrid (row p) (col p)"
  shows "\<exists>w'. clampWeights w ps = Some w' \<and> wfGrid w' \<and>
           (\<forall>r c. inGrid r c \<longrightarrow>
              cellAt w' r c = (if \<lparr>row = r, col = c\<rparr> \<in> set ps then clamp600 (cellAt w r c)
                               else cellAt w r c))"
  using assms
proof (induction ps arbitrary: w)
  case Nil
  then show ?case by simp
next
  case (Cons p ps)
  obtain r0 c0 where p: "p = \<lparr>row = r0, col = c0\<rparr>" by (cases p) auto
  from Cons.prems p have g: "inGrid r0 c0" by simp
  let ?w1 = "w[nat r0 := (w ! nat r0)[nat c0 := clamp600 (cellAt w r0 c0)]]"
  have w1: "wfGrid ?w1" by (rule wfGrid_update[OF Cons.prems(1) g])
  from Cons.IH[OF w1] Cons.prems(2) obtain w' where
    w': "clampWeights ?w1 ps = Some w'" "wfGrid w'"
        "\<forall>r c. inGrid r c \<longrightarrow>
              cellAt w' r c = (if \<lparr>row = r, col = c\<rparr> \<in> set ps then clamp600 (cellAt ?w1 r c)
                               else cellAt ?w1 r c)"
    by auto
  have "clampWeights w (p # ps) = Some w'"
    unfolding p clampWeights_step[OF Cons.prems(1) g] by (rule w'(1))
  moreover have "cellAt w' r c = (if \<lparr>row = r, col = c\<rparr> \<in> set (p # ps) then clamp600 (cellAt w r c)
                               else cellAt w r c)"
    if "inGrid r c" for r c
    using w'(3) that cellAt_update[OF Cons.prems(1) g that, of "clamp600 (cellAt w r0 c0)"]
    by (auto simp: p)
  ultimately show ?case using w'(2) by blast
qed

lemma holds_rdNum:
  assumes "holds h a rs g"
  shows "rdNumH h a r c = rdNum g r c"
  by (simp add: rdNumH_def rdNum_def holds_rd[OF assms])

lemma rel_option_frame_trans:
  assumes "rel_option (\<lambda>h' g'. holds h' a rs g' \<and> frame rs h1 h') m1 m2" "frame rs h h1"
  shows "rel_option (\<lambda>h' g'. holds h' a rs g' \<and> frame rs h h') m1 m2"
  using assms by (auto simp: rel_option_iff split: option.splits intro: frame_trans)

lemma updateWeightsH_sim:
  assumes "holds h a rs g"
  shows "rel_option (\<lambda>h' g'. holds h' a rs g' \<and> frame rs h h')
           (updateWeightsH h a ts winner) (updateWeights g ts winner)"
  using assms
proof (induction ts arbitrary: h g)
  case Nil
  then show ?case by (simp add: frame_refl)
next
  case (Cons t ts)
  let ?r = "row (move t)" and ?c = "col (move t)"
  show ?case
  proof (cases "rdNum g ?r ?c")
    case None
    then show ?thesis by (simp add: holds_rdNum[OF Cons.prems])
  next
    case (Some x)
    let ?v = "if color t = winner then x + 0.5 else x - 0.25"
    have "rel_option (\<lambda>h' g'. holds h' a rs g' \<and> frame rs h h')
            (wrH h a ?r ?c ?v \<bind> (\<lambda>h'. updateWeightsH h' a ts winner))
            (wr g ?r ?c ?v \<bind> (\<lambda>w'. updateWeights w' ts winner))"
    proof (rule rel_option_bindI[OF holds_wr[OF Cons.prems]])
      fix h1 g1 assume 1: "holds h1 a rs g1 \<and> frame rs h h1"
      with Cons.IH[of h1 g1] show "rel_option (\<lambda>h' g'. holds h' a rs g' \<and> frame rs h h')
            (updateWeightsH h1 a ts winner) (updateWeights g1 ts winner)"
        by (auto intro: rel_option_frame_trans)
    qed
    then show ?thesis by (simp add: holds_rdNum[OF Cons.prems] Some)
  qed
qed

lemma clampStepH_sim:
  assumes "holds h a rs g"
  shows "rel_option (\<lambda>h' g'. holds h' a rs g' \<and> frame rs h h')
           (rdH h a r c \<bind> (\<lambda>x. case x of Elem v \<Rightarrow> if P v then wrH h a r c u else Some h
                                          | Undefined \<Rightarrow> Some h))
           (rd g r c \<bind> (\<lambda>x. case x of Elem v \<Rightarrow> if P v then wr g r c u else Some g
                                       | Undefined \<Rightarrow> Some g))"
  using assms holds_wr[OF assms, of r c u]
  by (cases "rd g r c") (auto simp: holds_rd[OF assms] frame_refl split: slot.splits)

lemma clampWeightsH_sim:
  assumes "holds h a rs g"
  shows "rel_option (\<lambda>h' g'. holds h' a rs g' \<and> frame rs h h')
           (clampWeightsH h a ps) (clampWeights g ps)"
  using assms
proof (induction ps arbitrary: h g)
  case Nil
  then show ?case by (simp add: frame_refl)
next
  case (Cons p ps)
  let ?r = "row p" and ?c = "col p"
  let ?hi = "\<lambda>h. rdH h a ?r ?c \<bind> (\<lambda>x. case x of Elem v \<Rightarrow> if 600 < v then wrH h a ?r ?c 600 else Some h
                                          | Undefined \<Rightarrow> Some h)"
  let ?lo = "\<lambda>h. rdH h a ?r ?c \<bind> (\<lambda>x. case x of Elem v \<Rightarrow> if v < - 600 then wrH h a ?r ?c (- 600) else Some h
                                          | Undefined \<Rightarrow> Some h)"
  let ?ghi = "\<lambda>g. rd g ?r ?c \<bind> (\<lambda>x. case x of Elem v \<Rightarrow> if 600 < v then wr g ?r ?c 600 else Some g
                                          | Undefined \<Rightarrow> Some g)"
  let ?glo = "\<lambda>g. rd g ?r ?c \<bind> (\<lambda>x. case x of Elem v \<Rightarrow> if v < - 600 then wr g ?r ?c (- 600) else Some g
                                          | Undefined \<Rightarrow> Some g)"
  have eqH: "clampWeightsH h a (p # ps) = ?hi h \<bind> (\<lambda>h1. ?lo h1 \<bind> (\<lambda>h2. clampWeightsH h2 a ps))"
    by (simp add: bind_assoc)
  have eqG: "clampWeights g (p # ps) = ?ghi g \<bind> (\<lambda>g1. ?glo g1 \<bind> (\<lambda>g2. clampWeights g2 ps))"
    by (simp add: bind_assoc)
  show ?case
    unfolding eqH eqG
  proof (rule rel_option_bindI[OF clampStepH_sim[OF Cons.prems]])
    fix h1 g1 assume 1: "holds h1 a rs g1 \<and> frame rs h h1"
    have "rel_option (\<lambda>h' g'. holds h' a rs g' \<and> frame rs h1 h')
            (?lo h1 \<bind> (\<lambda>h2. clampWeightsH h2 a ps)) (?glo g1 \<bind> (\<lambda>g2. clampWeights g2 ps))"
    proof (rule rel_option_bindI[OF clampStepH_sim])
      show "holds h1 a rs g1" using 1 by simp
    next
      fix h2 g2 assume 2: "holds h2 a rs g2 \<and> frame rs h1 h2"
      with Cons.IH[of h2 g2] show "rel_option (\<lambda>h' g'. holds h' a rs g' \<and> frame rs h1 h')
            (clampWeightsH h2 a ps) (clampWeights g2 ps)"
        by (auto intro: rel_option_frame_trans)
    qed
    with 1 show "rel_option (\<lambda>h' g'. holds h' a rs g' \<and> frame rs h h')
            (?lo h1 \<bind> (\<lambda>h2. clampWeightsH h2 a ps)) (?glo g1 \<bind> (\<lambda>g2. clampWeights g2 ps))"
      by (auto intro: rel_option_frame_trans)
  qed
qed

lemma trainWeightsH_sim:
  assumes "gridAt h a = Some g"
  shows "rel_option
           (\<lambda>(nw, h') g'. gridAt h' nw = Some g' \<and> take (length h) h' = h \<and> length h \<le> nw)
           (trainWeightsH h a ts (Some win))
           (updateWeights g ts (Some win) \<bind> (\<lambda>w1. clampWeights w1 allCells))"
proof -
  let ?rs = "[length h ..< length h + length g]"
  let ?nb = "length h + length g"
  let ?h1 = "h @ map Elems g @ [Rows ?rs]"
  let ?R = "\<lambda>h' g'. holds h' ?nb ?rs g' \<and> frame ?rs ?h1 h'"
  note cp = copyGrid_fresh[OF assms]
  have 2: "rel_option ?R (updateWeightsH ?h1 ?nb ts (Some win) \<bind> (\<lambda>h2. clampWeightsH h2 ?nb allCells))
             (updateWeights g ts (Some win) \<bind> (\<lambda>w1. clampWeights w1 allCells))"
  proof (rule rel_option_bindI[OF updateWeightsH_sim[OF cp(2)]])
    fix h2 g2 assume a2: "holds h2 ?nb ?rs g2 \<and> frame ?rs ?h1 h2"
    with clampWeightsH_sim[of h2 ?nb ?rs g2 allCells]
    show "rel_option ?R (clampWeightsH h2 ?nb allCells) (clampWeights g2 allCells)"
      by (auto intro: rel_option_frame_trans)
  qed
  have 3: "gridAt h' ?nb = Some g' \<and> take (length h) h' = h \<and> length h \<le> ?nb" if "?R h' g'" for h' g'
  proof -
    from that have "holds h' ?nb ?rs g'" "frame ?rs (h @ (map Elems g @ [Rows ?rs])) h'" by simp_all
    then show ?thesis
      using frame_fresh_prefix[of ?rs h _ h'] holds_gridAt[of h' ?nb ?rs g'] by auto
  qed
  show ?thesis
    unfolding trainWeightsH_def using 2 3
    by (auto simp: cp(1) rel_option_iff split: option.splits bind_splits)
qed

text \<open>
  Claim C6. For every history of moves of the grid and every winner, \<^verbatim>\<open>trainBrain\<close> adds
  0.5 to the weight of a cell for every move the winner made there and subtracts 0.25 for
  every move the other side made there, over the full history, then clamps every cell
  into [-600, 600]; and it works on a copy: the new matrix is a new object, no object of
  the caller's heap is written, and the input matrix has its old value after the call.
\<close>

theorem trainBrain_weights:
  assumes "gridAt h weightsRef = Some (weights currentData)" "wfGrid (weights currentData)"
    and "\<forall>t \<in> set gameHistory. inGrid (row (move t)) (col (move t))"
  shows "\<exists>newData nw h'.
           trainBrain currentData gameHistory (Some win) clock = Some newData \<and>
           trainWeightsH h weightsRef gameHistory (Some win) = Some (nw, h') \<and>
           gridAt h' nw = Some (weights newData) \<and> length h \<le> nw \<and>
           take (length h) h' = h \<and> gridAt h' weightsRef = Some (weights currentData) \<and>
           wfGrid (weights newData) \<and>
           (\<forall>r c. inGrid r c \<longrightarrow>
              cellAt (weights newData) r c
                = clamp600 (cellAt (weights currentData) r c
                            + 0.5 * real (winnerMovesAt gameHistory (Some win) r c)
                            - 0.25 * real (loserMovesAt gameHistory (Some win) r c)) \<and>
              - 600 \<le> cellAt (weights newData) r c \<and> cellAt (weights newData) r c \<le> 600)"
proof -
  from updateWeights_cells[OF assms(2,3), of "Some win"] obtain w1 where
    w1: "updateWeights (weights currentData) gameHistory (Some win) = Some w1" "wfGrid w1"
        "\<forall>r c. inGrid r c \<longrightarrow>
              cellAt w1 r c = cellAt (weights currentData) r c
                              + 0.5 * real (winnerMovesAt gameHistory (Some win) r c)
                              - 0.25 * real (loserMovesAt gameHistory (Some win) r c)"
    by blast
  from clampWeights_cells[OF w1(2) allCells_inGrid] obtain w2 where
    w2: "clampWeights w1 allCells = Some w2" "wfGrid w2"
        "\<forall>r c. inGrid r c \<longrightarrow> cellAt w2 r c = clamp600 (cellAt w1 r c)"
    by (auto simp: mem_allCells)
  obtain newData where nd: "trainBrain currentData gameHistory (Some win) clock = Some newData"
    "weights newData = w2"
    by (simp add: trainBrain_def w1(1) w2(1) Let_def)
  from trainWeightsH_sim[OF assms(1), of gameHistory win] w1(1) w2(1)
  obtain nw h' where hp: "trainWeightsH h weightsRef gameHistory (Some win) = Some (nw, h')"
    "gridAt h' nw = Some w2" "take (length h) h' = h" "length h \<le> nw"
    by (auto simp: option_rel_Some2)
  have cells: "cellAt w2 r c
                = clamp600 (cellAt (weights currentData) r c
                            + 0.5 * real (winnerMovesAt gameHistory (Some win) r c)
                            - 0.25 * real (loserMovesAt gameHistory (Some win) r c)) \<and>
              - 600 \<le> cellAt w2 r c \<and> cellAt w2 r c \<le> 600" if "inGrid r c" for r c
    using w2(3) w1(3) that clamp600_range by simp
  show ?thesis
    using nd hp gridAt_prefix[OF assms(1) hp(3)] w2(2) cells
    by (intro exI[of _ newData] exI[of _ nw] exI[of _ h']) (simp add: clamp600_range)
qed

theorem trainBrain_weights_witness:
  "(\<exists>newData nw h'.
      trainBrain INITIAL_DATA shortGame (Some Black) (\<lambda>k. 0) = Some newData \<and>
      trainWeightsH (heapOf INITIAL_WEIGHTS) 8 shortGame (Some Black) = Some (nw, h') \<and>
      gridAt h' 8 = Some INITIAL_WEIGHTS \<and> gridAt h' nw = Some (weights newData) \<and>
      cellAt (weights newData) 0 0 = 500.5 \<and> cellAt (weights newData) 0 1 = - 100.25) \<and>
   (\<exists>newData. trainBrain (INITIAL_DATA\<lparr>weights := constWeights 600\<rparr>) shortGame (Some Black) (\<lambda>k. 0)
                 = Some newData \<and> cellAt (weights newData) 0 0 = 600) \<and>
   (\<exists>newData. trainBrain (INITIAL_DATA\<lparr>weights := constWeights (- 600)\<rparr>) shortGame (Some Black) (\<lambda>k. 0)
                 = Some newData \<and> cellAt (weights newData) 0 1 = - 600)"
proof -
  have g: "\<forall>t \<in> set shortGame. inGrid (row (move t)) (col (move t))"
    by (simp add: shortGame_def inGrid_def BOARD_SIZE_def)
  have i: "inGrid 0 0" "inGrid 0 1" by (simp_all add: inGrid_def BOARD_SIZE_def)
  have n: "winnerMovesAt shortGame (Some Black) 0 0 = 1" "loserMovesAt shortGame (Some Black) 0 0 = 0"
    "winnerMovesAt shortGame (Some Black) 0 1 = 0" "loserMovesAt shortGame (Some Black) 0 1 = 1"
    by (simp_all add: shortGame_def winnerMovesAt_def loserMovesAt_def)
  have wf: "wfGrid INITIAL_WEIGHTS" "wfGrid (constWeights x)" for x
    by (simp_all add: wfGrid_def INITIAL_WEIGHTS_def constWeights_def list_all_iff)
  have c: "cellAt INITIAL_WEIGHTS 0 0 = 500" "cellAt INITIAL_WEIGHTS 0 1 = - 100"
    "cellAt (constWeights x) 0 0 = x" "cellAt (constWeights x) 0 1 = x" for x
    by (simp_all add: cellAt_def INITIAL_WEIGHTS_def constWeights_def)
  have h: "gridAt (heapOf w) (length w) = Some w" for w :: "real list list"
    by (simp add: gridAt_def heapOf_def rowsOf_def elemsOf_def those_map_Some nth_append)
  have len: "length INITIAL_WEIGHTS = 8" by (simp add: INITIAL_WEIGHTS_def)
  have h0: "gridAt (heapOf INITIAL_WEIGHTS) 8 = Some (weights INITIAL_DATA)"
    using h[of INITIAL_WEIGHTS] unfolding len by (simp add: INITIAL_DATA_def)
  have 1: "\<exists>newData nw h'.
      trainBrain INITIAL_DATA shortGame (Some Black) (\<lambda>k. 0) = Some newData \<and>
      trainWeightsH (heapOf INITIAL_WEIGHTS) 8 shortGame (Some Black) = Some (nw, h') \<and>
      gridAt h' 8 = Some INITIAL_WEIGHTS \<and> gridAt h' nw = Some (weights newData) \<and>
      cellAt (weights newData) 0 0 = 500.5 \<and> cellAt (weights newData) 0 1 = - 100.25"
  proof -
    from trainBrain_weights[OF h0 _ g, of Black "\<lambda>k. 0"] wf(1)
    obtain newData nw h' where
      r: "trainBrain INITIAL_DATA shortGame (Some Black) (\<lambda>k. 0) = Some newData"
         "trainWeightsH (heapOf INITIAL_WEIGHTS) 8 shortGame (Some Black) = Some (nw, h')"
         "gridAt h' nw = Some (weights newData)" "gridAt h' 8 = Some (weights INITIAL_DATA)"
         "\<forall>r c. inGrid r c \<longrightarrow>
              cellAt (weights newData) r c
                = clamp600 (cellAt (weights INITIAL_DATA) r c
                            + 0.5 * real (winnerMovesAt shortGame (Some Black) r c)
                            - 0.25 * real (loserMovesAt shortGame (Some Black) r c))"
      by (auto simp: INITIAL_DATA_def)
    from r(5) i n c(1,2) have "cellAt (weights newData) 0 0 = 500.5" "cellAt (weights newData) 0 1 = - 100.25"
      by (simp_all add: INITIAL_DATA_def clamp600_def)
    with r(1-4) show ?thesis by (auto simp: INITIAL_DATA_def)
  qed
  have 2: "\<exists>newData. trainBrain (INITIAL_DATA\<lparr>weights := constWeights x\<rparr>) shortGame (Some Black) (\<lambda>k. 0)
                 = Some newData \<and>
             cellAt (weights newData) 0 0 = clamp600 (x + 0.5) \<and>
             cellAt (weights newData) 0 1 = clamp600 (x - 0.25)" for x
  proof -
    have hx: "gridAt (heapOf (constWeights x)) (length (constWeights x))
              = Some (weights (INITIAL_DATA\<lparr>weights := constWeights x\<rparr>))"
      using h[of "constWeights x"] by simp
    from trainBrain_weights[OF hx _ g, of Black "\<lambda>k. 0"] wf(2)[of x]
    obtain newData where
      r: "trainBrain (INITIAL_DATA\<lparr>weights := constWeights x\<rparr>) shortGame (Some Black) (\<lambda>k. 0) = Some newData"
         "\<forall>r c. inGrid r c \<longrightarrow>
              cellAt (weights newData) r c
                = clamp600 (cellAt (constWeights x) r c
                            + 0.5 * real (winnerMovesAt shortGame (Some Black) r c)
                            - 0.25 * real (loserMovesAt shortGame (Some Black) r c))"
      by auto
    from r(2) i n c(3,4)[of x] have "cellAt (weights newData) 0 0 = clamp600 (x + 0.5)"
      "cellAt (weights newData) 0 1 = clamp600 (x - 0.25)"
      by simp_all
    with r(1) show ?thesis by blast
  qed
  from 2[of 600] have a: "\<exists>newData. trainBrain (INITIAL_DATA\<lparr>weights := constWeights 600\<rparr>) shortGame (Some Black) (\<lambda>k. 0)
                 = Some newData \<and> cellAt (weights newData) 0 0 = 600"
    by (auto simp: clamp600_def)
  from 2[of "- 600"] have b: "\<exists>newData. trainBrain (INITIAL_DATA\<lparr>weights := constWeights (- 600)\<rparr>) shortGame (Some Black) (\<lambda>k. 0)
                 = Some newData \<and> cellAt (weights newData) 0 1 = - 600"
    by (auto simp: clamp600_def)
  show ?thesis by (rule conjI[OF 1 conjI[OF a b]])
qed

section \<open>The order of the three tiers\<close>

lemma sum_list_abs_bound:
  fixes f :: "'a \<Rightarrow> real"
  assumes "\<forall>x \<in> set xs. \<bar>f x\<bar> \<le> (if Q x then M else 0)"
  shows "\<bar>sum_list (map f xs)\<bar> \<le> M * real (length (filter Q xs))"
  using assms
proof (induction xs)
  case Nil
  then show ?case by simp
next
  case (Cons x xs)
  then have "\<bar>sum_list (map f xs)\<bar> \<le> M * real (length (filter Q xs))" by simp
  moreover from Cons.prems have "\<bar>f x\<bar> \<le> (if Q x then M else 0)" by simp
  ultimately show ?case by (auto simp: algebra_simps)
qed

lemma length_filter_mono:
  assumes "\<forall>x \<in> set xs. P x \<longrightarrow> Q x"
  shows "length (filter P xs) \<le> length (filter Q xs)"
  using assms by (induction xs) auto

lemma empty_cells_count:
  assumes "wfGrid b"
  shows "int (length (filter (\<lambda>p. cellAt b (row p) (col p) = None) allCells)) = diskCount b None"
proof -
  have "length (filter (\<lambda>p. cellAt b (row p) (col p) = None) allCells)
        = length (filter (\<lambda>x. x = None) (map (\<lambda>p. cellAt b (row p) (col p)) allCells))"
    by (simp add: filter_map comp_def)
  then show ?thesis by (simp add: cells_concat[OF assms] diskCount_def)
qed

lemma length_allCells: "length allCells = 64"
  by code_simp

lemma occupied_cells_count:
  assumes "wfGrid b"
  shows "int (length (filter (\<lambda>p. cellAt b (row p) (col p) \<noteq> None) allCells)) = 64 - diskCount b None"
  using sum_length_filter_compl[of "\<lambda>p. cellAt b (row p) (col p) = None" allCells]
    empty_cells_count[OF assms] length_allCells by simp

lemma cornerTerm_bound: "\<bar>cornerTerm b me\<bar> \<le> 8000"
proof -
  have "\<bar>cornerTerm b me\<bar> \<le> 2000 * real (length (filter (\<lambda>p. True) corners))"
    unfolding cornerTerm_def by (rule sum_list_abs_bound) simp
  then show ?thesis by (simp add: corners_def)
qed

lemma mobilityTerm_bound:
  assumes "wfGrid b"
  shows "\<bar>mobilityTerm b me\<bar> \<le> 50 * real_of_int (diskCount b None)"
proof -
  let ?e = "length (filter (\<lambda>p. cellAt b (row p) (col p) = None) allCells)"
  have "length (filter (\<lambda>p. legalDestination b c (row p) (col p)) allCells) \<le> ?e" for c
    by (rule length_filter_mono) (simp add: legalDestination_def)
  from this[of me] this[of "opposite me"] empty_cells_count[OF assms]
  show ?thesis
    unfolding mobilityTerm_def by (simp add: abs_mult)
qed

lemma positionTerm_bound:
  assumes "wfGrid b" "\<forall>r c. inGrid r c \<longrightarrow> \<bar>cellAt w r c\<bar> \<le> 600"
  shows "\<bar>positionTerm b me w\<bar> \<le> 600 * real_of_int (64 - diskCount b None)"
proof -
  have "\<bar>positionTerm b me w\<bar>
        \<le> 600 * real (length (filter (\<lambda>p. cellAt b (row p) (col p) \<noteq> None) allCells))"
    unfolding positionTerm_def
    by (rule sum_list_abs_bound) (use assms(2) allCells_inGrid in auto)
  also have "\<dots> = 600 * real_of_int (64 - diskCount b None)"
    using occupied_cells_count[OF assms(1)] by (metis of_int_of_nat_eq)
  finally show ?thesis .
qed

text \<open>
  Claim C5, as stated, fails. With every weight at 600, inside the clamp range: in
  \<open>cornerBoard\<close> Black holds a corner and White none, yet the positional sum outweighs
  the corner bonus and the board is worth -400 to Black, less than the opening position
  (worth 0), in which nobody holds a corner. And the full board \<open>board_33_31\<close>, a won
  game, is worth 20000 to Black, less than the heuristic 28000 of \<open>blackOnly40\<close>, a
  board that is not full.
\<close>

theorem tiers_counterexample:
  "cornerTerm cornerBoard Black = 2000 \<and> cornerTerm createInitialBoard Black = 0 \<and>
   evaluateBoard cornerBoard (Some Black) (constWeights 600) = Some (- 400) \<and>
   evaluateBoard createInitialBoard (Some Black) (constWeights 600) = Some 0 \<and>
   evaluateBoard board_33_31 (Some Black) (constWeights 600) = Some 20000 \<and>
   evaluateBoard blackOnly40 (Some Black) (constWeights 600) = Some 28000"
proof -
  have "cornerTerm cornerBoard Black = 2000" "cornerTerm createInitialBoard Black = 0"
    by (simp_all add: cornerTerm_def corners_def cellAt_def cornerBoard_def
        createInitialBoard_def Let_def)
  moreover have "evaluateBoard cornerBoard (Some Black) (constWeights 600) = Some (- 400)"
    by code_simp
  moreover have "evaluateBoard createInitialBoard (Some Black) (constWeights 600) = Some 0"
    by code_simp
  moreover have "evaluateBoard board_33_31 (Some Black) (constWeights 600) = Some 20000"
    by code_simp
  moreover have "evaluateBoard blackOnly40 (Some Black) (constWeights 600) = Some 28000"
    by code_simp
  ultimately show ?thesis by simp
qed

text \<open>
  Claim C5, amended. The tiers are ordered per unit (10000 per disk of a full board,
  2000 per corner, at most 600 per occupied cell, 50 per legal move), not in sum. For
  every 8 by 8 board with \<open>e > 0\<close> empty cells and every 8 by 8 weight matrix with cells
  within [-600, 600], the score is the sum of the corner term, the mobility term and the
  positional term, bounded by 8000, by \<open>50 * e\<close> and by \<open>600 * (64 - e)\<close>; the last two
  together can outweigh the first. The score is at most 45850 in magnitude, so the score
  of a full board dominates every such heuristic score once its margin is 5 disks or more.
\<close>

theorem evaluator_tiers:
  assumes "wfGrid b" "wfGrid w" "diskCount b None \<noteq> 0"
    and "\<forall>r c. inGrid r c \<longrightarrow> \<bar>cellAt w r c\<bar> \<le> 600"
  shows "\<exists>y. evaluateBoard b (Some me) w = Some y \<and>
             y = cornerTerm b me + mobilityTerm b me + positionTerm b me w \<and>
             \<bar>cornerTerm b me\<bar> \<le> 8000 \<and>
             \<bar>mobilityTerm b me\<bar> \<le> 50 * real_of_int (diskCount b None) \<and>
             \<bar>positionTerm b me w\<bar> \<le> 600 * real_of_int (64 - diskCount b None) \<and>
             \<bar>y\<bar> \<le> 45850 \<and>
             (\<forall>fb. wfGrid fb \<and> diskCount fb None = 0 \<and>
                    5 \<le> diskCount fb (Some me) - diskCount fb (Some (opposite me)) \<longrightarrow>
                    (\<exists>x. evaluateBoard fb (Some me) w = Some x \<and> y < x))"
proof -
  let ?y = "cornerTerm b me + mobilityTerm b me + positionTerm b me w"
  note c = cornerTerm_bound[of b me]
  note m = mobilityTerm_bound[OF assms(1), of me]
  note p = positionTerm_bound[OF assms(1,4), of me]
  have "0 \<le> diskCount b None" by (simp add: diskCount_def)
  with assms(3) have e: "1 \<le> real_of_int (diskCount b None)" by linarith
  have y: "\<bar>?y\<bar> \<le> 45850"
    using c m p e by (simp add: algebra_simps)
  have full: "\<exists>x. evaluateBoard fb (Some me) w = Some x \<and> ?y < x"
    if "wfGrid fb \<and> diskCount fb None = 0 \<and>
        5 \<le> diskCount fb (Some me) - diskCount fb (Some (opposite me))" for fb
  proof -
    let ?d = "diskCount fb (Some me) - diskCount fb (Some (opposite me))"
    from that have "evaluateBoard fb (Some me) w = Some (real_of_int (?d * 10000))"
      using evaluateBoard_full[of fb me w] by simp
    moreover have "50000 \<le> real_of_int (?d * 10000)"
    proof -
      from that have "50000 \<le> ?d * 10000" by simp
      then have "real_of_int 50000 \<le> real_of_int (?d * 10000)" by (simp only: of_int_le_iff)
      then show ?thesis by simp
    qed
    ultimately show ?thesis using y by auto
  qed
  show ?thesis
    using evaluateBoard_terms[OF assms(1,2,3), of me] c m p y full by blast
qed


theorem evaluator_tiers_witness:
  "wfGrid cornerBoard \<and> wfGrid (constWeights 600) \<and> diskCount cornerBoard None \<noteq> 0 \<and>
   evaluateBoard cornerBoard (Some Black) (constWeights 600) = Some (- 400) \<and>
   cornerTerm cornerBoard Black = 2000 \<and>
   mobilityTerm cornerBoard Black + positionTerm cornerBoard Black (constWeights 600) = - 2400 \<and>
   (\<exists>x. evaluateBoard board_40_24 (Some Black) (constWeights 600) = Some x \<and> - 400 < x)"
proof -
  have wf: "wfGrid cornerBoard" "wfGrid (constWeights 600)" "wfGrid board_40_24"
    by code_simp+
  have e: "diskCount cornerBoard None \<noteq> 0" by code_simp
  have w: "\<forall>r c. inGrid r c \<longrightarrow> \<bar>cellAt (constWeights 600) r c\<bar> \<le> 600"
    by (auto simp: cellAt_def constWeights_def inGrid_def BOARD_SIZE_def nat_less_iff)
  have v: "evaluateBoard cornerBoard (Some Black) (constWeights 600) = Some (- 400)"
    by code_simp
  have c: "cornerTerm cornerBoard Black = 2000"
    by (simp add: cornerTerm_def corners_def cellAt_def cornerBoard_def Let_def)
  have f: "diskCount board_40_24 None = 0"
    "5 \<le> diskCount board_40_24 (Some Black) - diskCount board_40_24 (Some (opposite Black))"
    by code_simp+
  from evaluator_tiers[OF wf(1,2) e w, of Black] v obtain
    y: "- 400 = cornerTerm cornerBoard Black + mobilityTerm cornerBoard Black
                + positionTerm cornerBoard Black (constWeights 600)"
    and full: "\<forall>fb. wfGrid fb \<and> diskCount fb None = 0 \<and>
                    5 \<le> diskCount fb (Some Black) - diskCount fb (Some (opposite Black)) \<longrightarrow>
                    (\<exists>x. evaluateBoard fb (Some Black) (constWeights 600) = Some x \<and> - 400 < x)"
    by auto
  from full wf(3) f have "\<exists>x. evaluateBoard board_40_24 (Some Black) (constWeights 600) = Some x \<and> - 400 < x"
    by blast
  moreover from y c have "mobilityTerm cornerBoard Black + positionTerm cornerBoard Black (constWeights 600) = - 2400"
    by simp
  ultimately show ?thesis using wf e v c by simp
qed

end
